theory Spec2Isabelle
  imports Complex_Main "HOL-Library.Word"
begin

section \<open>JavaScript numbers\<close>

text \<open>
  A JavaScript \<^verbatim>\<open>number\<close> is a double: a finite value, one of the two infinities, or
  NaN. A finite value is carried as the real it denotes. The sum and the difference of
  two finite values are rounded to the nearest double, ties to even, and overflow to an
  infinity, as IEEE 754 prescribes. The remainder \<^verbatim>\<open>%\<close> is exact in IEEE arithmetic and so
  it is here. The sign of zero is not kept.
\<close>

datatype jsnum = Fin real | PosInf | NegInf | NaN

fun isFinite :: "jsnum \<Rightarrow> bool" where
  "isFinite (Fin _) = True"
| "isFinite _ = False"

fun nneg :: "jsnum \<Rightarrow> jsnum" where
  "nneg (Fin a) = Fin (- a)"
| "nneg PosInf = NegInf"
| "nneg NegInf = PosInf"
| "nneg NaN = NaN"

text \<open>
  Rounding to nearest, ties to even. \<open>rne\<close> rounds a real to an integer; \<open>expo x\<close> is
  the binary exponent of \<open>x\<close>; a double in the binade of \<open>x\<close> is a multiple of
  \<open>2 powi ulp_exp x\<close>, with 53 significant bits, or of \<open>2 powi - 1074\<close> in the
  subnormal range. A rounded magnitude of \<open>2 ^ 1024\<close> or more overflows.
\<close>

definition rne :: "real \<Rightarrow> int" where
  "rne q = (let f = \<lfloor>q\<rfloor>; d = q - of_int f
            in if d < 1 / 2 then f else if 1 / 2 < d then f + 1
               else if even f then f else f + 1)"

definition expo :: "real \<Rightarrow> int" where
  "expo x = \<lfloor>log 2 \<bar>x\<bar>\<rfloor>"

definition ulp_exp :: "real \<Rightarrow> int" where
  "ulp_exp x = max (expo x - 52) (- 1074)"

definition round64 :: "real \<Rightarrow> jsnum" where
  "round64 x =
     (if x = 0 then Fin 0
      else let u = 2 powi ulp_exp x; r = of_int (rne (x / u)) * u
           in if 2 ^ 1024 \<le> \<bar>r\<bar> then (if 0 < x then PosInf else NegInf) else Fin r)"

text \<open>\<^verbatim>\<open>Number.MAX_VALUE\<close>, the largest finite double.\<close>

definition max_double :: real where
  "max_double = 2 ^ 1024 - 2 ^ 971"

fun nadd :: "jsnum \<Rightarrow> jsnum \<Rightarrow> jsnum" where
  "nadd (Fin a) (Fin b) = round64 (a + b)"
| "nadd NaN _ = NaN"
| "nadd _ NaN = NaN"
| "nadd PosInf NegInf = NaN"
| "nadd NegInf PosInf = NaN"
| "nadd PosInf _ = PosInf"
| "nadd NegInf _ = NegInf"
| "nadd _ PosInf = PosInf"
| "nadd _ NegInf = NegInf"

definition nsub :: "jsnum \<Rightarrow> jsnum \<Rightarrow> jsnum" where
  "nsub a b = nadd a (nneg b)"

text \<open>The relational operator \<^verbatim>\<open><\<close>: false as soon as one side is NaN.\<close>

fun nlt :: "jsnum \<Rightarrow> jsnum \<Rightarrow> bool" where
  "nlt (Fin a) (Fin b) = (a < b)"
| "nlt NaN _ = False"
| "nlt _ NaN = False"
| "nlt NegInf NegInf = False"
| "nlt NegInf _ = True"
| "nlt _ NegInf = False"
| "nlt PosInf _ = False"
| "nlt _ PosInf = True"

text \<open>\<^verbatim>\<open>Math.max(a, b)\<close>: NaN if either argument is NaN.\<close>

definition nmax :: "jsnum \<Rightarrow> jsnum \<Rightarrow> jsnum" where
  "nmax a b = (if a = NaN \<or> b = NaN then NaN else if nlt a b then b else a)"

text \<open>
  The remainder \<^verbatim>\<open>a % b\<close> truncates the quotient towards zero, so the result has the
  sign of the dividend.
\<close>

definition trunc :: "real \<Rightarrow> int" where
  "trunc r = (if 0 \<le> r then \<lfloor>r\<rfloor> else \<lceil>r\<rceil>)"

definition fmod :: "real \<Rightarrow> real \<Rightarrow> real" where
  "fmod a b = a - b * of_int (trunc (a / b))"

fun nmod :: "jsnum \<Rightarrow> jsnum \<Rightarrow> jsnum" where
  "nmod (Fin a) (Fin b) = (if b = 0 then NaN else Fin (fmod a b))"
| "nmod (Fin a) PosInf = Fin a"
| "nmod (Fin a) NegInf = Fin a"
| "nmod _ _ = NaN"

section \<open>The angle normalizer\<close>

text \<open>
  \<^verbatim>\<open>
  private normalize180(deg: number): number {
      const x = (deg + 180) % 360;
      return x < 0 ? x + 360 - 180 : x - 180;
  }
  \<close>
\<close>

definition normalize180 :: "jsnum \<Rightarrow> jsnum" where
  "normalize180 deg =
     (let x = nmod (nadd deg (Fin 180)) (Fin 360)
      in if nlt x (Fin 0) then nsub (nadd x (Fin 360)) (Fin 180) else nsub x (Fin 180))"

text \<open>
  The reference definition of the specification,
  \<open>((d + 180) mod 360 + 360) mod 360 - 180\<close>, with a modulo whose remainder is never
  negative, as a function on the reals.
\<close>

definition floor_mod :: "real \<Rightarrow> real \<Rightarrow> real" where
  "floor_mod a b = a - b * of_int \<lfloor>a / b\<rfloor>"

definition normalize_spec :: "real \<Rightarrow> real" where
  "normalize_spec d = floor_mod (floor_mod (d + 180) 360 + 360) 360 - 180"


section \<open>The binary telemetry packet\<close>

text \<open>
  A \<^verbatim>\<open>DataView\<close> is the list of its bytes. \<^verbatim>\<open>getFloat32(byteOffset, true)\<close> raises a
  RangeError when the four bytes do not lie inside the view and otherwise reads them,
  little-endian, as an IEEE-754 single-precision value. Every single-precision value is
  a double, so the conversion to \<^verbatim>\<open>number\<close>, the store into the \<^verbatim>\<open>Float32Array\<close> and the
  read back from it are all exact.
\<close>

type_synonym byte = "8 word"

datatype error = RangeError | TypeError

definition float32_of_bytes :: "byte \<Rightarrow> byte \<Rightarrow> byte \<Rightarrow> byte \<Rightarrow> jsnum" where
  "float32_of_bytes b0 b1 b2 b3 =
     (let bits = unat b0 + 256 * unat b1 + 65536 * unat b2 + 16777216 * unat b3;
          neg = (bits div 2 ^ 31 = 1);
          e = (bits div 2 ^ 23) mod 256;
          m = bits mod 2 ^ 23;
          mag = (if e = 0 then real m / 2 ^ 149 else real (2 ^ 23 + m) * 2 ^ e / 2 ^ 150)
      in if e = 255 then (if m \<noteq> 0 then NaN else if neg then NegInf else PosInf)
         else Fin (if neg then - mag else mag))"

definition getFloat32 :: "byte list \<Rightarrow> nat \<Rightarrow> error + jsnum" where
  "getFloat32 dv byteOffset =
     (if length dv < byteOffset + 4 then Inl RangeError
      else Inr (float32_of_bytes (dv ! byteOffset) (dv ! (byteOffset + 1))
                  (dv ! (byteOffset + 2)) (dv ! (byteOffset + 3))))"

text \<open>
  The loop \<^verbatim>\<open>for (let i = 0; i < 20; i++) values[i] = dv.getFloat32(i * 4, true)\<close>,
  started at index \<open>i\<close> with \<open>n\<close> iterations left; the first RangeError ends it.
\<close>

fun read_floats :: "byte list \<Rightarrow> nat \<Rightarrow> nat \<Rightarrow> error + jsnum list" where
  "read_floats dv i 0 = Inr []"
| "read_floats dv i (Suc n) =
     (case getFloat32 dv (i * 4) of
        Inl e \<Rightarrow> Inl e
      | Inr v \<Rightarrow> (case read_floats dv (Suc i) n of
                    Inl e \<Rightarrow> Inl e
                  | Inr vs \<Rightarrow> Inr (v # vs)))"

section \<open>The BLE manager\<close>

datatype vec3 = Vec3 jsnum jsnum jsnum

datatype euler = Euler jsnum jsnum jsnum

text \<open>
  \<^verbatim>\<open>SensorData\<close>. The manager builds it from its slots with non-null assertions, which
  check nothing at run time, so every object field can hold null; \<open>dev_t\<close> is the
  field \<^verbatim>\<open>t\<close>.
\<close>

record SensorData =
  accel :: "vec3 option"
  gyro :: "vec3 option"
  mag :: "vec3 option"
  gyroInt :: "euler option"
  fusion :: "euler option"
  fusionMag :: "euler option"
  temperature :: "jsnum option"
  dev_t :: jsnum

datatype event = Connected | Disconnected | Data SensorData | Error

text \<open>
  The fields of \<^verbatim>\<open>WebBLEManager\<close>. The three GATT handles are kept as "is not null".
  \<open>microtasks\<close> counts the closures handed to \<^verbatim>\<open>queueMicrotask\<close> that have not run yet
  (they are all the same closure over \<^verbatim>\<open>this\<close>), and \<open>emitted\<close> is the sequence of
  \<^verbatim>\<open>emit\<close> calls, in the order the listeners see them.
\<close>

record manager =
  server :: bool
  packetChar :: bool
  controlChar :: bool
  latestAccel :: "vec3 option"
  latestGyro :: "vec3 option"
  latestMag :: "vec3 option"
  latestGyroInt :: "euler option"
  latestFusion :: "euler option"
  latestFusionMag :: "euler option"
  latestTemp :: "jsnum option"
  emitScheduled :: bool
  latestTimeSec :: "jsnum option"
  microtasks :: nat
  emitted :: "event list"

definition ble_init :: manager where
  "ble_init = \<lparr>server = False, packetChar = False, controlChar = False,
     latestAccel = None, latestGyro = None, latestMag = None, latestGyroInt = None,
     latestFusion = None, latestFusionMag = None, latestTemp = None,
     emitScheduled = False, latestTimeSec = None, microtasks = 0, emitted = []\<rparr>"

definition emit :: "event \<Rightarrow> manager \<Rightarrow> manager" where
  "emit ev s = s\<lparr>emitted := emitted s @ [ev]\<rparr>"

definition handleDisconnect :: "manager \<Rightarrow> manager" where
  "handleDisconnect s =
     emit Disconnected
       (s\<lparr>server := False, packetChar := False, controlChar := False,
          latestAccel := None, latestGyro := None, latestMag := None,
          latestFusion := None, latestFusionMag := None, latestGyroInt := None,
          latestTemp := None, emitScheduled := False\<rparr>)"

text \<open>The closure given to \<^verbatim>\<open>queueMicrotask\<close> in \<^verbatim>\<open>scheduleEmitIfReady\<close>.\<close>

definition emitMicrotask :: "manager \<Rightarrow> manager" where
  "emitMicrotask s =
     emit (Data \<lparr>accel = latestAccel s, gyro = latestGyro s, mag = latestMag s,
                 gyroInt = latestGyroInt s, fusion = latestFusion s,
                 fusionMag = latestFusionMag s, temperature = latestTemp s,
                 dev_t = (case latestTimeSec s of None \<Rightarrow> Fin 0 | Some v \<Rightarrow> v)\<rparr>)
       (s\<lparr>emitScheduled := False\<rparr>)"

definition scheduleEmitIfReady :: "manager \<Rightarrow> manager" where
  "scheduleEmitIfReady s =
     (if emitScheduled s then s
      else if latestAccel s = None \<or> latestGyro s = None \<or> latestMag s = None
              \<or> latestTemp s = None then s
      else s\<lparr>emitScheduled := True, microtasks := Suc (microtasks s)\<rparr>)"

text \<open>
  The listener of \<^verbatim>\<open>characteristicvaluechanged\<close> on the packet characteristic. A
  RangeError leaves the listener before any field is assigned.
\<close>

definition packet_onChange :: "byte list \<Rightarrow> manager \<Rightarrow> error option \<times> manager" where
  "packet_onChange dv s =
     (case read_floats dv 0 20 of
        Inl e \<Rightarrow> (Some e, s)
      | Inr values \<Rightarrow>
          (None, scheduleEmitIfReady
             (s\<lparr>latestAccel := Some (Vec3 (values ! 0) (values ! 1) (values ! 2)),
                latestGyro := Some (Vec3 (values ! 3) (values ! 4) (values ! 5)),
                latestMag := Some (Vec3 (values ! 6) (values ! 7) (values ! 8)),
                latestGyroInt := Some (Euler (values ! 9) (values ! 10) (values ! 11)),
                latestFusion := Some (Euler (values ! 12) (values ! 13) (values ! 14)),
                latestFusionMag := Some (Euler (values ! 15) (values ! 16) (values ! 17)),
                latestTemp := Some (values ! 18),
                latestTimeSec := (if isFinite (values ! 19) then Some (values ! 19)
                                  else None)\<rparr>)))"

text \<open>
  The microtask checkpoint at the end of a scheduling turn runs every queued closure; the
  closure queues nothing itself.
\<close>

fun drain :: "nat \<Rightarrow> manager \<Rightarrow> manager" where
  "drain 0 s = s"
| "drain (Suc n) s = drain n (emitMicrotask s)"

definition runMicrotasks :: "manager \<Rightarrow> manager" where
  "runMicrotasks s = drain (microtasks s) (s\<lparr>microtasks := 0\<rparr>)"

text \<open>A scheduling turn in which the buffers \<open>dvs\<close> are delivered one after the other.\<close>

definition deliver :: "manager \<Rightarrow> byte list \<Rightarrow> manager" where
  "deliver s dv = snd (packet_onChange dv s)"

definition turn :: "byte list list \<Rightarrow> manager \<Rightarrow> manager" where
  "turn dvs s = runMicrotasks (foldl deliver s dvs)"

text \<open>What can happen to a manager, and a run of such steps.\<close>

datatype action = Notify "byte list" | Disconnect | Checkpoint

fun step :: "manager \<Rightarrow> action \<Rightarrow> manager" where
  "step s (Notify dv) = deliver s dv"
| "step s Disconnect = handleDisconnect s"
| "step s Checkpoint = runMicrotasks s"

definition run :: "action list \<Rightarrow> manager \<Rightarrow> manager" where
  "run acts s = foldl step s acts"

section \<open>The application\<close>

datatype mode = ModeAccel | ModeGyro | ModeFusion | ModeFusionMag

text \<open>The calls the 3D model receives.\<close>

datatype pcb_call =
    UpdateOrientationFromAccel vec3 jsnum
  | UpdateOrientationFromEuler "euler option" jsnum

text \<open>
  The fields of \<^verbatim>\<open>AccelerometerApp\<close> that the telemetry pipeline reads and writes.
  \<open>msgRate\<close> is the number shown in the message-rate element, \<open>pcbModel\<close> is null
  or the loaded model with the calls made on it so far. The other DOM elements and the
  graphs are written to and never read back, and are left out.
\<close>

record app =
  mode :: mode
  prevDeviceTimeSec :: "jsnum option"
  msgTimestamps :: "jsnum list"
  msgRate :: nat
  smoothingDisabled :: bool
  pcbModel :: "pcb_call list option"

definition app_init :: app where
  "app_init = \<lparr>mode = ModeAccel, prevDeviceTimeSec = None, msgTimestamps = [],
     msgRate = 0, smoothingDisabled = False, pcbModel = None\<rparr>"

text \<open>The change listener of the gyro radio button; \<open>checked\<close> is the button's state.\<close>

definition onModeGyroChange :: "bool \<Rightarrow> app \<Rightarrow> app" where
  "onModeGyroChange checked s =
     (if checked
      then s\<lparr>mode := ModeGyro, prevDeviceTimeSec := None, smoothingDisabled := True\<rparr>
      else s)"

text \<open>
  \<^verbatim>\<open>while (ts.length && ts[0] < oneSecondAgo) ts.shift()\<close>
\<close>

fun evict :: "jsnum \<Rightarrow> jsnum list \<Rightarrow> jsnum list" where
  "evict oneSecondAgo [] = []"
| "evict oneSecondAgo (h # rest) =
     (if nlt h oneSecondAgo then evict oneSecondAgo rest else h # rest)"

text \<open>The mode dispatch at the end of the model update.\<close>

fun dispatch :: "mode \<Rightarrow> SensorData \<Rightarrow> vec3 \<Rightarrow> jsnum \<Rightarrow> pcb_call list" where
  "dispatch ModeAccel d a dt = [UpdateOrientationFromAccel a dt]"
| "dispatch ModeGyro d a dt = [UpdateOrientationFromEuler (gyroInt d) dt]"
| "dispatch ModeFusion d a dt =
     (case fusion d of None \<Rightarrow> [] | Some f \<Rightarrow> [UpdateOrientationFromEuler (Some f) dt])"
| "dispatch ModeFusionMag d a dt =
     (case fusionMag d of None \<Rightarrow> [] | Some f \<Rightarrow> [UpdateOrientationFromEuler (Some f) dt])"

text \<open>
  \<^verbatim>\<open>handleSensorData\<close>: the rate window, then the readouts (reading \<^verbatim>\<open>data.accel.x\<close> and
  the like raises a TypeError on a null field, after the rate window has been updated),
  then the clock and the dispatch when the model is loaded.
\<close>

definition handleSensorData :: "SensorData \<Rightarrow> app \<Rightarrow> error option \<times> app" where
  "handleSensorData d s =
     (let nowSec = (if isFinite (dev_t d) then dev_t d
                    else if msgTimestamps s \<noteq> [] then last (msgTimestamps s) else Fin 0);
          oneSecondAgo = nsub nowSec (Fin 1);
          ts = evict oneSecondAgo (msgTimestamps s @ [nowSec]);
          s1 = s\<lparr>msgTimestamps := ts, msgRate := length ts\<rparr>
      in case (accel d, gyro d, mag d, temperature d) of
           (Some a, Some g, Some m, Some T) \<Rightarrow>
             (case pcbModel s1 of
                None \<Rightarrow> (None, s1)
              | Some calls \<Rightarrow>
                  (let prev = prevDeviceTimeSec s1;
                       dt = (case prev of
                               None \<Rightarrow> Fin 0
                             | Some p \<Rightarrow> if isFinite (dev_t d)
                                         then nmax (Fin 0) (nsub (dev_t d) p) else Fin 0)
                   in (None, s1\<lparr>prevDeviceTimeSec :=
                                   (if isFinite (dev_t d) then Some (dev_t d) else None),
                                 pcbModel := Some (calls @ dispatch (mode s1) d a dt)\<rparr>)))
         | _ \<Rightarrow> (Some TypeError, s1))"

text \<open>Samples handed to the application one after the other.\<close>

definition feed :: "app \<Rightarrow> SensorData list \<Rightarrow> app" where
  "feed s ds = foldl (\<lambda>s d. snd (handleSensorData d s)) s ds"


section \<open>Auxiliary notions\<close>

text \<open>
  The float read at index \<open>i\<close> of a view that is long enough, and the eight assignments
  of the packet listener as one update.
\<close>

definition float_at :: "byte list \<Rightarrow> nat \<Rightarrow> jsnum" where
  "float_at dv i =
     float32_of_bytes (dv ! (i * 4)) (dv ! (i * 4 + 1)) (dv ! (i * 4 + 2)) (dv ! (i * 4 + 3))"

definition store_values :: "byte list \<Rightarrow> manager \<Rightarrow> manager" where
  "store_values dv s =
     s\<lparr>latestAccel := Some (Vec3 (float_at dv 0) (float_at dv 1) (float_at dv 2)),
       latestGyro := Some (Vec3 (float_at dv 3) (float_at dv 4) (float_at dv 5)),
       latestMag := Some (Vec3 (float_at dv 6) (float_at dv 7) (float_at dv 8)),
       latestGyroInt := Some (Euler (float_at dv 9) (float_at dv 10) (float_at dv 11)),
       latestFusion := Some (Euler (float_at dv 12) (float_at dv 13) (float_at dv 14)),
       latestFusionMag := Some (Euler (float_at dv 15) (float_at dv 16) (float_at dv 17)),
       latestTemp := Some (float_at dv 18),
       latestTimeSec := (if isFinite (float_at dv 19) then Some (float_at dv 19) else None)\<rparr>"

text \<open>The four mandatory slots are set; the sample a flush would build now.\<close>

definition ready :: "manager \<Rightarrow> bool" where
  "ready s = (latestAccel s \<noteq> None \<and> latestGyro s \<noteq> None \<and> latestMag s \<noteq> None
              \<and> latestTemp s \<noteq> None)"

definition snapshot :: "manager \<Rightarrow> SensorData" where
  "snapshot s = \<lparr>accel = latestAccel s, gyro = latestGyro s, mag = latestMag s,
                 gyroInt = latestGyroInt s, fusion = latestFusion s,
                 fusionMag = latestFusionMag s, temperature = latestTemp s,
                 dev_t = (case latestTimeSec s of None \<Rightarrow> Fin 0 | Some v \<Rightarrow> v)\<rparr>"

text \<open>The time slot and the time of every sample emitted so far are finite.\<close>

definition time_ok :: "manager \<Rightarrow> bool" where
  "time_ok s =
     ((case latestTimeSec s of None \<Rightarrow> True | Some v \<Rightarrow> isFinite v)
      \<and> list_all (\<lambda>ev. case ev of Data p \<Rightarrow> isFinite (dev_t p) | _ \<Rightarrow> True) (emitted s))"

text \<open>
  Concrete inputs. Both packets are 80 bytes long with the first nineteen floats zero; the
  last float is 5.0 (bit pattern 40A00000) in the first and a NaN (7FC00000) in the
  second. \<open>zero_sample\<close> is the sample built from all-zero slots.
\<close>

definition packet_t5 :: "byte list" where
  "packet_t5 = replicate 76 0 @ [0x00, 0x00, 0xA0, 0x40]"

definition packet_nan :: "byte list" where
  "packet_nan = replicate 76 0 @ [0x00, 0x00, 0xC0, 0x7F]"

definition zero_sample :: SensorData where
  "zero_sample =
     \<lparr>accel = Some (Vec3 (Fin 0) (Fin 0) (Fin 0)), gyro = Some (Vec3 (Fin 0) (Fin 0) (Fin 0)),
      mag = Some (Vec3 (Fin 0) (Fin 0) (Fin 0)),
      gyroInt = Some (Euler (Fin 0) (Fin 0) (Fin 0)),
      fusion = Some (Euler (Fin 0) (Fin 0) (Fin 0)),
      fusionMag = Some (Euler (Fin 0) (Fin 0) (Fin 0)),
      temperature = Some (Fin 0), dev_t = Fin 0\<rparr>"

text \<open>
  A sample of a board lying flat, with device time \<open>t\<close>, and an application whose model
  is loaded and whose clock anchor is \<open>anchor\<close>.
\<close>

definition sample_at :: "jsnum \<Rightarrow> SensorData" where
  "sample_at t =
     \<lparr>accel = Some (Vec3 (Fin 0) (Fin 0) (Fin 1)), gyro = Some (Vec3 (Fin 0) (Fin 0) (Fin 0)),
      mag = Some (Vec3 (Fin 30) (Fin 0) (Fin 0)),
      gyroInt = Some (Euler (Fin 0) (Fin 0) (Fin 0)),
      fusion = None, fusionMag = None, temperature = Some (Fin 25), dev_t = t\<rparr>"

definition app_loaded :: "jsnum option \<Rightarrow> app" where
  "app_loaded anchor = app_init\<lparr>prevDeviceTimeSec := anchor, pcbModel := Some []\<rparr>"

text \<open>
  Further concrete inputs: the double just below -180, \<open>- 180 - 2 ^ - 45\<close>; a clock
  anchor of \<open>2 ^ - 60\<close> seconds; the sample a flush builds from cleared slots and a
  surviving time slot of 5; and the sample of \<open>packet_t5\<close>.
\<close>

definition edge_input :: real where
  "edge_input = - 180 - 1 / 2 ^ 45"

definition tiny_anchor :: real where
  "tiny_anchor = 1 / 2 ^ 60"




section \<open>Facts about rounding\<close>


lemma rne_cases:
  "rne q = \<lfloor>q\<rfloor> \<or> (rne q = \<lfloor>q\<rfloor> + 1 \<and> of_int \<lfloor>q\<rfloor> + 1 / 2 \<le> q)"
  by (auto simp add: rne_def Let_def)

lemma rne_floor_half: "rne q = \<lfloor>q\<rfloor> \<Longrightarrow> q \<le> of_int \<lfloor>q\<rfloor> + 1 / 2"
  by (auto simp add: rne_def Let_def split: if_splits)

lemma rne_upper: "q < of_int n + 1 / 2 \<Longrightarrow> rne q \<le> n"
proof -
  assume a: "q < of_int n + 1 / 2"
  have fl: "of_int \<lfloor>q\<rfloor> \<le> q" by simp
  from rne_cases [of q] show ?thesis
  proof
    assume "rne q = \<lfloor>q\<rfloor>"
    moreover from a fl have "of_int \<lfloor>q\<rfloor> < (of_int n :: real) + 1" by linarith
    then have "\<lfloor>q\<rfloor> < n + 1" by (metis of_int_1 of_int_add of_int_less_iff)
    ultimately show ?thesis by simp
  next
    assume "rne q = \<lfloor>q\<rfloor> + 1 \<and> of_int \<lfloor>q\<rfloor> + 1 / 2 \<le> q"
    moreover with a have "of_int \<lfloor>q\<rfloor> < (of_int n :: real)" by linarith
    then have "\<lfloor>q\<rfloor> < n" by simp
    ultimately show ?thesis by simp
  qed
qed

lemma rne_lower: "of_int n - 1 / 2 < q \<Longrightarrow> n \<le> rne q"
proof -
  assume a: "of_int n - 1 / 2 < q"
  have fl: "q < of_int \<lfloor>q\<rfloor> + 1" by linarith
  from rne_cases [of q] show ?thesis
  proof
    assume r: "rne q = \<lfloor>q\<rfloor>"
    then have "q \<le> of_int \<lfloor>q\<rfloor> + 1 / 2" by (rule rne_floor_half)
    with a have "(of_int n :: real) < of_int \<lfloor>q\<rfloor> + 1" by linarith
    then have "n < \<lfloor>q\<rfloor> + 1" by (metis of_int_1 of_int_add of_int_less_iff)
    with r show ?thesis by simp
  next
    assume r: "rne q = \<lfloor>q\<rfloor> + 1 \<and> of_int \<lfloor>q\<rfloor> + 1 / 2 \<le> q"
    from a fl have "(of_int n :: real) < of_int \<lfloor>q\<rfloor> + 2" by linarith
    then have "n < \<lfloor>q\<rfloor> + 2" by (metis of_int_add of_int_less_iff of_int_numeral)
    with r show ?thesis by simp
  qed
qed

lemma pow2_less_cancel: "(2::real) powi a < 2 powi b \<Longrightarrow> a < b"
proof (rule ccontr)
  assume l: "(2::real) powi a < 2 powi b" and "\<not> a < b"
  then have "b \<le> a" by simp
  then have "(2::real) powi b \<le> 2 powi a" by (intro power_int_increasing) simp_all
  with l show False by simp
qed

lemma expo_bounds:
  assumes "x \<noteq> 0"
  shows "2 powi expo x \<le> \<bar>x\<bar>" and "\<bar>x\<bar> < 2 powi (expo x + 1)"
proof -
  from assms have p: "0 < \<bar>x\<bar>" by simp
  have "of_int (expo x) \<le> log 2 \<bar>x\<bar>" by (simp add: expo_def)
  then have "2 powr of_int (expo x) \<le> 2 powr log 2 \<bar>x\<bar>" by simp
  with p show "2 powi expo x \<le> \<bar>x\<bar>" by (simp add: powr_real_of_int')
  have eq: "(2::real) powr of_int (expo x + 1) = 2 powi (expo x + 1)"
    by (rule powr_real_of_int') simp_all
  have "log 2 \<bar>x\<bar> < of_int (expo x + 1)" by (simp add: expo_def)
  then have "2 powr log 2 \<bar>x\<bar> < 2 powr of_int (expo x + 1)"
    using powr_less_cancel_iff [of 2 "log 2 \<bar>x\<bar>" "of_int (expo x + 1)"] by simp
  with p show "\<bar>x\<bar> < 2 powi (expo x + 1)" by (simp only: eq) simp
qed

lemma expo_less:
  assumes "x \<noteq> 0" and "\<bar>x\<bar> < 2 powi k"
  shows "expo x < k"
proof -
  from expo_bounds(1) [OF assms(1)] assms(2)
  have "(2::real) powi expo x < 2 powi k" by linarith
  then show ?thesis by (rule pow2_less_cancel)
qed

lemma expo_ge:
  assumes "2 powi k \<le> \<bar>x\<bar>"
  shows "k \<le> expo x"
proof -
  have "0 < (2::real) powi k" by simp
  with assms have "0 < \<bar>x\<bar>" by linarith
  then have nz: "x \<noteq> 0" by simp
  from expo_bounds(2) [OF nz] assms
  have "(2::real) powi k < 2 powi (expo x + 1)" by linarith
  then have "k < expo x + 1" by (rule pow2_less_cancel)
  then show ?thesis by simp
qed

lemma expo_eq:
  assumes "2 powi e \<le> \<bar>x\<bar>" and "\<bar>x\<bar> < 2 powi (e + 1)"
  shows "expo x = e"
proof -
  have "0 < (2::real) powi e" by simp
  with assms(1) have "0 < \<bar>x\<bar>" by linarith
  then have nz: "x \<noteq> 0" by simp
  from expo_less [OF nz assms(2)] expo_ge [OF assms(1)] show ?thesis by simp
qed

lemma round64_not_NaN: "round64 x \<noteq> NaN"
  by (simp add: round64_def Let_def)

text \<open>Rounding in a known normal binade, for the evaluation of concrete sums.\<close>

lemma round64_at:
  assumes "2 powi e \<le> \<bar>x\<bar>" and "\<bar>x\<bar> < 2 powi (e + 1)" and "- 1022 \<le> e"
  shows "round64 x =
     (let u = 2 powi (e - 52); r = of_int (rne (x / u)) * u
      in if 2 ^ 1024 \<le> \<bar>r\<bar> then (if 0 < x then PosInf else NegInf) else Fin r)"
proof -
  have "0 < (2::real) powi e" by simp
  with assms(1) have "0 < \<bar>x\<bar>" by linarith
  then have nz: "x \<noteq> 0" by simp
  from assms(1,2) have "expo x = e" by (rule expo_eq)
  with assms(3) have "ulp_exp x = e - 52" by (simp add: ulp_exp_def)
  with nz show ?thesis by (simp add: round64_def)
qed

text \<open>A grid point is a multiple of every finer power of two.\<close>

lemma grid_refine:
  assumes "k \<le> j"
  shows "of_int a * 2 powi j / 2 powi k = (of_int (a * 2 ^ nat (j - k)) :: real)"
proof -
  from assms have "(2::real) powi j = 2 powi (j - k) * 2 powi k"
    using power_int_add [of "2::real" "j - k" k] by simp
  moreover from assms have "(2::real) powi (j - k) = 2 ^ nat (j - k)"
    by (simp add: power_int_nonneg_exp)
  ultimately show ?thesis by simp
qed

lemma ulp_exp_le:
  assumes "x \<noteq> 0" and "\<bar>x\<bar> < 2 powi (j + 53)" and "- 1074 \<le> j"
  shows "ulp_exp x \<le> j"
proof -
  from expo_less [OF assms(1) assms(2)] have "expo x - 52 \<le> j" by simp
  with assms(3) show ?thesis by (simp add: ulp_exp_def)
qed

text \<open>Rounding stays between two grid points that enclose the argument.\<close>

lemma round64_grid_between:
  assumes "lo \<le> x" and "x \<le> hi"
    and "lo = of_int a * 2 powi j" and "hi = of_int b * 2 powi j"
    and "\<bar>x\<bar> < 2 powi (j + 53)" and "- 1074 \<le> j"
    and "\<bar>lo\<bar> < 2 ^ 1024" and "\<bar>hi\<bar> < 2 ^ 1024"
  shows "\<exists>r. round64 x = Fin r \<and> lo \<le> r \<and> r \<le> hi"
proof (cases "x = 0")
  case True
  with assms(1,2) show ?thesis by (simp add: round64_def)
next
  case False
  define k where "k = ulp_exp x"
  define u where "u = (2::real) powi k"
  define r where "r = of_int (rne (x / u)) * u"
  have u: "0 < u" by (simp add: u_def)
  from False assms(5,6) have kj: "k \<le> j" unfolding k_def by (rule ulp_exp_le)
  have glo: "lo / u = of_int (a * 2 ^ nat (j - k))"
    unfolding u_def assms(3) using kj by (rule grid_refine)
  have ghi: "hi / u = of_int (b * 2 ^ nat (j - k))"
    unfolding u_def assms(4) using kj by (rule grid_refine)
  from assms(1) u have "lo / u \<le> x / u" by (simp add: divide_right_mono)
  then have "of_int (a * 2 ^ nat (j - k)) - 1 / 2 < x / u" by (simp add: glo)
  then have "a * 2 ^ nat (j - k) \<le> rne (x / u)" by (rule rne_lower)
  then have "(of_int (a * 2 ^ nat (j - k)) :: real) \<le> of_int (rne (x / u))"
    by (simp only: of_int_le_iff)
  with u have "of_int (a * 2 ^ nat (j - k)) * u \<le> r"
    unfolding r_def by (simp add: mult_right_mono)
  with glo u have lo: "lo \<le> r" by (simp add: field_simps)
  from assms(2) u have "x / u \<le> hi / u" by (simp add: divide_right_mono)
  then have "x / u < of_int (b * 2 ^ nat (j - k)) + 1 / 2" by (simp add: ghi)
  then have "rne (x / u) \<le> b * 2 ^ nat (j - k)" by (rule rne_upper)
  then have "(of_int (rne (x / u)) :: real) \<le> of_int (b * 2 ^ nat (j - k))"
    by (simp only: of_int_le_iff)
  with u have "r \<le> of_int (b * 2 ^ nat (j - k)) * u"
    unfolding r_def by (simp add: mult_right_mono)
  with ghi u have hi: "r \<le> hi" by (simp add: field_simps)
  from lo hi assms(7,8) have "\<bar>r\<bar> < 2 ^ 1024" by linarith
  with False have "round64 x = Fin r"
    by (simp add: round64_def Let_def r_def u_def k_def)
  with lo hi show ?thesis by simp
qed

text \<open>A value with at most 53 significant bits on a grid of doubles is a double.\<close>

lemma round64_exact:
  assumes "x = of_int n * 2 powi j" and "\<bar>x\<bar> < 2 powi (j + 53)"
    and "- 1074 \<le> j" and "j + 53 \<le> 1024"
  shows "round64 x = Fin x"
proof -
  from assms(4) have "(2::real) powi (j + 53) \<le> 2 powi 1024"
    by (intro power_int_increasing) simp_all
  with assms(2) have "\<bar>x\<bar> < 2 ^ 1024" by simp
  with round64_grid_between [of x x x n j n] assms(1,2,3) show ?thesis
    by auto
qed

text \<open>
  Below \<open>max_double\<close> plus half a unit in the last place, rounding does not overflow.
\<close>

lemma round64_finite:
  assumes "\<bar>x\<bar> < 2 ^ 1024 - 2 ^ 970"
  shows "\<exists>r. round64 x = Fin r"
proof (cases "x = 0")
  case True
  then show ?thesis by (simp add: round64_def)
next
  case False
  define k where "k = ulp_exp x"
  from assms have "\<bar>x\<bar> < 2 powi 1024" by simp
  with False have e: "expo x < 1024" by (rule expo_less)
  then have k971: "k \<le> 971" by (simp add: k_def ulp_exp_def)
  have kmin: "- 1074 \<le> k" by (simp add: k_def ulp_exp_def)
  show ?thesis
  proof (cases "k = 971")
    case True
    define q where "q = x / 2 ^ 971"
    define r where "r = of_int (rne q) * (2::real) ^ 971"
    have "\<bar>x\<bar> / 2 ^ 971 < (2 ^ 1024 - 2 ^ 970) / 2 ^ 971"
      using assms by (simp add: divide_strict_right_mono)
    then have "\<bar>q\<bar> < of_int (2 ^ 53 - 1) + 1 / 2"
      by (simp add: q_def abs_divide)
    then have up: "q < of_int (2 ^ 53 - 1) + 1 / 2"
      and low: "of_int (- (2 ^ 53 - 1)) - 1 / 2 < q"
      by (simp_all add: abs_less_iff)
    from up have "rne q \<le> 2 ^ 53 - 1" by (rule rne_upper)
    moreover from low have "- (2 ^ 53 - 1) \<le> rne q" by (rule rne_lower)
    ultimately have "\<bar>rne q\<bar> \<le> 2 ^ 53 - 1" by simp
    then have "(of_int \<bar>rne q\<bar> :: real) \<le> of_int (2 ^ 53 - 1)"
      by (simp only: of_int_le_iff)
    then have "\<bar>(of_int (rne q) :: real)\<bar> \<le> 2 ^ 53 - 1"
      by simp
    then have "\<bar>r\<bar> \<le> (2 ^ 53 - 1) * 2 ^ 971"
      unfolding r_def by (simp add: abs_mult mult_right_mono)
    then have "\<bar>r\<bar> < 2 ^ 1024" by simp
    with False True show ?thesis
      by (simp add: round64_def Let_def r_def q_def k_def [symmetric])
  next
    case neq: False
    with k971 have k970: "k \<le> 970" by simp
    have ek: "expo x + 1 \<le> k + 53" by (simp add: k_def ulp_exp_def)
    from expo_bounds(2) [OF False] have "\<bar>x\<bar> < 2 powi (expo x + 1)" .
    also from ek have "(2::real) powi (expo x + 1) \<le> 2 powi (k + 53)"
      by (intro power_int_increasing) simp_all
    finally have b: "\<bar>x\<bar> < 2 powi (k + 53)" .
    have split: "(2::real) powi (k + 53) = 2 ^ 53 * 2 powi k"
      using power_int_add [of "2::real" 53 k] by (simp add: add.commute)
    from k970 have "(2::real) powi (k + 53) \<le> 2 powi 1023"
      by (intro power_int_increasing) simp_all
    then have small: "(2::real) powi (k + 53) < 2 ^ 1024" by simp
    have "\<exists>r. round64 x = Fin r \<and> - (2 powi (k + 53)) \<le> r \<and> r \<le> 2 powi (k + 53)"
    proof (rule round64_grid_between [where a = "- (2 ^ 53)" and b = "2 ^ 53" and j = k])
      from b show "- (2 powi (k + 53)) \<le> x" by (simp add: abs_less_iff)
      from b show "x \<le> 2 powi (k + 53)" by (simp add: abs_less_iff)
      show "- ((2::real) powi (k + 53)) = of_int (- (2 ^ 53)) * 2 powi k"
        by (simp add: split)
      show "(2::real) powi (k + 53) = of_int (2 ^ 53) * 2 powi k"
        by (simp add: split)
      from b show "\<bar>x\<bar> < 2 powi (k + 53)" .
      from kmin show "- 1074 \<le> k" .
      from small show "\<bar>- ((2::real) powi (k + 53))\<bar> < 2 ^ 1024" by simp
      from small show "\<bar>(2::real) powi (k + 53)\<bar> < 2 ^ 1024" by simp
    qed
    then show ?thesis by blast
  qed
qed

section \<open>Facts about the remainder\<close>

lemma floor_mod_range:
  assumes "0 < b"
  shows "0 \<le> floor_mod a b \<and> floor_mod a b < b"
proof -
  have lo: "of_int \<lfloor>a / b\<rfloor> \<le> a / b" and hi: "a / b < of_int \<lfloor>a / b\<rfloor> + 1"
    by linarith+
  from lo assms have "of_int \<lfloor>a / b\<rfloor> * b \<le> a"
    by (simp only: pos_le_divide_eq)
  moreover from hi assms have "a < (of_int \<lfloor>a / b\<rfloor> + 1) * b"
    by (simp only: pos_divide_less_eq)
  ultimately show ?thesis
    by (simp add: floor_mod_def algebra_simps)
qed

lemma floor_mod_small:
  assumes "0 \<le> r" and "r < b"
  shows "floor_mod r b = r"
proof -
  from assms have "\<lfloor>r / b\<rfloor> = 0"
    by (simp add: floor_eq_iff)
  then show ?thesis
    by (simp add: floor_mod_def)
qed

lemma floor_mod_shift:
  assumes "b \<noteq> 0"
  shows "floor_mod (a + b) b = floor_mod a b"
proof -
  from assms have "(a + b) / b = a / b + 1"
    by (simp add: field_simps)
  then have "\<lfloor>(a + b) / b\<rfloor> = \<lfloor>a / b\<rfloor> + 1"
    by simp
  then show ?thesis
    by (simp add: floor_mod_def algebra_simps)
qed

text \<open>The truncating remainder differs from the flooring one on negative dividends only.\<close>

lemma fmod_cases:
  assumes "0 < b"
  shows "fmod a b =
    (if 0 \<le> a \<or> floor_mod a b = 0 then floor_mod a b else floor_mod a b - b)"
proof (cases "0 \<le> a")
  case True
  with assms have "0 \<le> a / b" by simp
  with True show ?thesis
    by (simp add: fmod_def floor_mod_def trunc_def)
next
  case False
  with assms have neg: "\<not> 0 \<le> a / b"
    by (simp add: field_simps)
  show ?thesis
  proof (cases "a / b = of_int \<lfloor>a / b\<rfloor>")
    case True
    then have "\<lceil>a / b\<rceil> = \<lfloor>a / b\<rfloor>"
      by (simp add: ceiling_altdef)
    moreover from True assms have "floor_mod a b = 0"
      by (simp add: floor_mod_def field_simps)
    ultimately show ?thesis
      using neg by (simp add: fmod_def floor_mod_def trunc_def)
  next
    case neq: False
    then have "\<lceil>a / b\<rceil> = \<lfloor>a / b\<rfloor> + 1"
      by (simp add: ceiling_altdef)
    moreover from neq assms have "floor_mod a b \<noteq> 0"
      by (simp add: floor_mod_def field_simps)
    ultimately show ?thesis
      using neg False by (simp add: fmod_def floor_mod_def trunc_def algebra_simps)
  qed
qed

lemma normalize_spec_eq: "normalize_spec d = floor_mod (d + 180) 360 - 180"
  unfolding normalize_spec_def
  by (simp add: floor_mod_shift floor_mod_small floor_mod_range)


lemma fmod_range: "- 360 < fmod a 360 \<and> fmod a 360 < 360"
proof -
  have "0 \<le> floor_mod a 360 \<and> floor_mod a 360 < 360"
    by (rule floor_mod_range) simp
  moreover have "fmod a 360 =
      (if 0 \<le> a \<or> floor_mod a 360 = 0 then floor_mod a 360 else floor_mod a 360 - 360)"
    by (rule fmod_cases) simp
  ultimately show ?thesis by (simp split: if_splits)
qed

section \<open>Facts about the rounded additions of the normalizer\<close>

lemma round64_small_int: "\<bar>n\<bar> < 2 ^ 53 \<Longrightarrow> round64 (of_int n) = Fin (of_int n)"
proof -
  assume "\<bar>n\<bar> < 2 ^ 53"
  then have "(of_int \<bar>n\<bar> :: real) < of_int (2 ^ 53)" by (simp only: of_int_less_iff)
  then have "\<bar>(of_int n :: real)\<bar> < 2 powi (0 + 53)" by simp
  then show ?thesis
    by (intro round64_exact [where n = n and j = 0]) simp_all
qed

lemma round64_360: "round64 360 = Fin 360"
  using round64_small_int [of 360] by simp

lemma round64_180: "round64 180 = Fin 180"
  using round64_small_int [of 180] by simp

lemma round64_minus_180: "round64 (- 180) = Fin (- 180)"
  using round64_small_int [of "- 180"] by simp

lemma round64_within_180:
  assumes "- 180 \<le> t" and "t \<le> 180"
  shows "\<exists>r. round64 t = Fin r \<and> - 180 \<le> r \<and> r \<le> 180"
proof (rule round64_grid_between [where a = "- (180 * 2 ^ 45)" and b = "180 * 2 ^ 45"
      and j = "- 45"])
  from assms show "- 180 \<le> t" "t \<le> 180" by simp_all
  show "(- 180 :: real) = of_int (- (180 * 2 ^ 45)) * 2 powi (- 45)" by simp
  show "(180 :: real) = of_int (180 * 2 ^ 45) * 2 powi (- 45)" by simp
  from assms show "\<bar>t\<bar> < 2 powi (- 45 + 53)" by simp
qed simp_all

lemma round64_within_360:
  assumes "0 \<le> t" and "t \<le> 360"
  shows "\<exists>r. round64 t = Fin r \<and> 0 \<le> r \<and> r \<le> 360"
proof (rule round64_grid_between [where a = 0 and b = "360 * 2 ^ 44" and j = "- 44"])
  from assms show "0 \<le> t" "t \<le> 360" by simp_all
  show "(0 :: real) = of_int 0 * 2 powi (- 44)" by simp
  show "(360 :: real) = of_int (360 * 2 ^ 44) * 2 powi (- 44)" by simp
  from assms show "\<bar>t\<bar> < 2 powi (- 44 + 53)" by simp
qed simp_all

lemma normalize180_bounds:
  assumes "\<bar>d\<bar> \<le> max_double"
  shows "\<exists>r. normalize180 (Fin d) = Fin r \<and> - 180 \<le> r \<and> r \<le> 180"
proof -
  have "(180::real) < 2 ^ 971 - 2 ^ 970" by simp
  with assms have "\<bar>d + 180\<bar> < 2 ^ 1024 - 2 ^ 970"
    unfolding max_double_def by linarith
  then obtain a where a: "round64 (d + 180) = Fin a"
    using round64_finite by blast
  define x where "x = fmod a 360"
  have xr: "- 360 < x \<and> x < 360" unfolding x_def by (rule fmod_range)
  show ?thesis
  proof (cases "x < 0")
    case True
    with xr have "0 \<le> x + 360" "x + 360 \<le> 360" by simp_all
    then obtain y where y: "round64 (x + 360) = Fin y" "0 \<le> y" "y \<le> 360"
      using round64_within_360 by blast
    then have "- 180 \<le> y + - 180" "y + - 180 \<le> 180" by simp_all
    then obtain z where z: "round64 (y + - 180) = Fin z" "- 180 \<le> z" "z \<le> 180"
      using round64_within_180 by blast
    from True a y z show ?thesis
      by (simp add: normalize180_def nsub_def Let_def x_def [symmetric])
  next
    case False
    with xr have "- 180 \<le> x + - 180" "x + - 180 \<le> 180" by simp_all
    then obtain z where z: "round64 (x + - 180) = Fin z" "- 180 \<le> z" "z \<le> 180"
      using round64_within_180 by blast
    from False a z show ?thesis
      by (simp add: normalize180_def nsub_def Let_def x_def [symmetric])
  qed
qed

lemma normalize180_at_180: "normalize180 (Fin 180) = Fin (- 180)"
  by (simp add: normalize180_def nsub_def round64_360 round64_minus_180 fmod_def trunc_def)


lemma grid_exact:
  assumes "x = of_int m * 2 powi k" and "\<bar>x\<bar> < 2 powi (k + 53)"
    and "- 1074 \<le> k" and "k \<le> 2"
  shows "round64 x = Fin x"
  using assms by (intro round64_exact [where n = m and j = k]) simp_all

lemma round64_tiny: "round64 (- (1 / 2 ^ 45)) = Fin (- (1 / 2 ^ 45))"
  by (rule grid_exact [where m = "- 1" and k = "- 45"]) simp_all

lemma round64_below_180: "round64 (180 - 1 / 2 ^ 45) = Fin (180 - 1 / 2 ^ 45)"
  by (rule grid_exact [where m = "180 * 2 ^ 45 - 1" and k = "- 45"]) simp_all

lemma round64_below_360: "round64 (360 - 1 / 2 ^ 45) = Fin 360"
proof -
  have "round64 (360 - 1 / 2 ^ 45) =
     (let u = 2 powi (8 - 52); r = of_int (rne ((360 - 1 / 2 ^ 45) / u)) * u
      in if 2 ^ 1024 \<le> \<bar>r\<bar> then (if 0 < (360 - 1 / 2 ^ 45 :: real) then PosInf else NegInf)
         else Fin r)"
    by (rule round64_at) simp_all
  moreover have "rne ((360 - 1 / 2 ^ 45) / 2 powi (8 - 52)) = 360 * 2 ^ 44"
    by (simp add: rne_def)
  ultimately show ?thesis by (simp add: Let_def)
qed

lemma normalize180_edge: "normalize180 (Fin edge_input) = Fin 180"
proof -
  have s: "edge_input + 180 = - (1 / 2 ^ 45)" by (simp add: edge_input_def)
  have m: "fmod (- (1 / 2 ^ 45)) 360 = - (1 / 2 ^ 45)"
    by (simp add: fmod_def trunc_def ceiling_def)
  have t: "- (1 / 2 ^ 45) + 360 = (360 - 1 / 2 ^ 45 :: real)" by simp
  have u: "360 + - 180 = (180::real)" by simp
  have a1: "nadd (Fin edge_input) (Fin 180) = Fin (- (1 / 2 ^ 45))"
    by (simp only: nadd.simps s round64_tiny)
  have a2: "nmod (Fin (- (1 / 2 ^ 45))) (Fin 360) = Fin (- (1 / 2 ^ 45))"
    using m by simp
  have a3: "nlt (Fin (- (1 / 2 ^ 45))) (Fin 0)" by simp
  have a4: "nadd (Fin (- (1 / 2 ^ 45))) (Fin 360) = Fin 360"
    by (simp only: nadd.simps t round64_below_360)
  have a5: "nsub (Fin 360) (Fin 180) = Fin 180"
    by (simp only: nsub_def nneg.simps nadd.simps u round64_180)
  show ?thesis
    by (simp only: normalize180_def Let_def a1 a2 a3 a4 a5 if_True)
qed

lemma normalize180_edge_shifted:
  "normalize180 (nadd (Fin edge_input) (Fin 360)) = Fin (- 180)"
proof -
  have s: "edge_input + 360 = 180 - 1 / 2 ^ 45" by (simp add: edge_input_def)
  have s2: "180 - 1 / 2 ^ 45 + 180 = (360 - 1 / 2 ^ 45 :: real)" by simp
  have m: "fmod 360 360 = 0" by (simp add: fmod_def trunc_def)
  have u: "0 + - 180 = (- 180::real)" by simp
  have a0: "nadd (Fin edge_input) (Fin 360) = Fin (180 - 1 / 2 ^ 45)"
    by (simp only: nadd.simps s round64_below_180)
  have a1: "nadd (Fin (180 - 1 / 2 ^ 45)) (Fin 180) = Fin 360"
    by (simp only: nadd.simps s2 round64_below_360)
  have a2: "nmod (Fin 360) (Fin 360) = Fin 0"
    using m by simp
  have a3: "\<not> nlt (Fin 0) (Fin 0)" by simp
  have a5: "nsub (Fin 0) (Fin 180) = Fin (- 180)"
    by (simp only: nsub_def nneg.simps nadd.simps u round64_minus_180)
  show ?thesis
    by (simp only: normalize180_def Let_def a0 a1 a2 a3 a5 if_False)
qed

lemma normalize_spec_edge: "normalize_spec edge_input = 180 - 1 / 2 ^ 45"
  by (simp add: normalize_spec_def floor_mod_def edge_input_def)

lemma edge_input_double: "round64 edge_input = Fin edge_input"
  unfolding edge_input_def
  by (rule grid_exact [where m = "- (180 * 2 ^ 45 + 1)" and k = "- 45"]) simp_all

text \<open>On a grid no finer than 4, 180 and 360 are grid points.\<close>

lemma grid_180:
  assumes "k \<le> 2"
  shows "(180::real) = of_int (45 * 2 ^ nat (2 - k)) * 2 powi k"
proof -
  from assms have "(2::real) powi 2 = 2 powi (2 - k) * 2 powi k"
    using power_int_add [of "2::real" "2 - k" k] by simp
  moreover from assms have "(2::real) powi (2 - k) = 2 ^ nat (2 - k)"
    by (simp add: power_int_nonneg_exp)
  ultimately have "(4::real) = 2 ^ nat (2 - k) * 2 powi k" by simp
  then have "(180::real) = 45 * (2 ^ nat (2 - k) * 2 powi k)" by simp
  then show ?thesis by simp
qed

text \<open>
  When the input lies on such a grid and is small enough for 53 bits, every addition of
  the normalizer is exact.
\<close>

lemma normalize180_exact:
  assumes d: "d = of_int n * 2 powi k" and k2: "k \<le> 2" and kmin: "- 1074 \<le> k"
    and b1: "\<bar>d\<bar> + 180 < 2 powi (k + 53)" and b2: "360 < (2::real) powi (k + 53)"
  shows "normalize180 (Fin d) = Fin (floor_mod (d + 180) 360 - 180)"
proof -
  define g where "g = (2::real) powi k"
  define c where "c = (45 :: int) * 2 ^ nat (2 - k)"
  have c180: "(180::real) = of_int c * g"
    unfolding c_def g_def using k2 by (rule grid_180)
  have "of_int (2 * c) * g = 2 * (of_int c * g)" by simp
  also have "\<dots> = 2 * 180" by (simp only: c180 [symmetric])
  finally have c360: "(360::real) = of_int (2 * c) * g" by simp
  define a where "a = d + 180"
  have ag: "a = of_int (n + c) * g"
    unfolding a_def by (simp add: d c180 g_def algebra_simps)
  from b1 have "\<bar>a\<bar> < 2 powi (k + 53)" unfolding a_def by linarith
  with ag have ra: "round64 a = Fin a"
    unfolding g_def using kmin k2 by (intro grid_exact)
  define x where "x = fmod a 360"
  have xg: "x = of_int (n + c - 2 * c * trunc (a / 360)) * g"
    unfolding x_def fmod_def by (simp add: ag c360 algebra_simps)
  have xr: "- 360 < x \<and> x < 360" unfolding x_def by (rule fmod_range)
  have fm: "0 \<le> floor_mod a 360 \<and> floor_mod a 360 < 360"
    by (rule floor_mod_range) simp
  have xc: "x = (if 0 \<le> a \<or> floor_mod a 360 = 0 then floor_mod a 360
                 else floor_mod a 360 - 360)"
    unfolding x_def by (rule fmod_cases) simp
  have sub: "round64 (t + - 180) = Fin (t - 180)"
    if tg: "t = of_int m * g" and tb: "- 180 \<le> t - 180" "t - 180 \<le> 180" for t m
  proof -
    have "t + - 180 = of_int (m - c) * g" by (simp add: tg c180 algebra_simps)
    moreover from tb b2 have "\<bar>t + - 180\<bar> < 2 powi (k + 53)" by linarith
    ultimately have "round64 (t + - 180) = Fin (t + - 180)"
      unfolding g_def using kmin k2 by (intro grid_exact)
    then show ?thesis by simp
  qed
  show ?thesis
  proof (cases "x < 0")
    case True
    have "x + 360 = of_int (n + c - 2 * c * trunc (a / 360) + 2 * c) * g"
      by (simp add: xg c360 algebra_simps)
    moreover from True xr b2 have "\<bar>x + 360\<bar> < 2 powi (k + 53)" by linarith
    ultimately have r1: "round64 (x + 360) = Fin (x + 360)"
      unfolding g_def using kmin k2 by (intro grid_exact)
    have "x + 360 = of_int (n + c - 2 * c * trunc (a / 360) + 2 * c) * g"
      by (simp add: xg c360 algebra_simps)
    moreover from True xr have "- 180 \<le> x + 360 - 180" "x + 360 - 180 \<le> 180" by simp_all
    ultimately have r2: "round64 (x + 360 + - 180) = Fin (x + 360 - 180)"
      by (rule sub)
    from True xc fm have "x = floor_mod a 360 - 360" by (simp split: if_splits)
    with True ra r1 r2 show ?thesis
      by (simp add: normalize180_def nsub_def Let_def a_def [symmetric] x_def [symmetric])
  next
    case False
    with xr have "- 180 \<le> x - 180" "x - 180 \<le> 180" by simp_all
    with xg have r2: "round64 (x + - 180) = Fin (x - 180)"
      by (rule sub)
    from False xc fm have "x = floor_mod a 360" by (simp split: if_splits)
    with False ra r2 show ?thesis
      by (simp add: normalize180_def nsub_def Let_def a_def [symmetric] x_def [symmetric])
  qed
qed

lemma floor_mod_grid:
  assumes "a = of_int m * g" and "(360::real) = of_int c * g"
  shows "floor_mod a 360 = of_int (m - c * \<lfloor>a / 360\<rfloor>) * g"
  using assms by (simp add: floor_mod_def algebra_simps)


section \<open>The angle normalizer: range and reference definition\<close>

text \<open>
  Claim C3 says that the normalizer maps every finite input into the half-open range
  (-180, 180] and that it maps 180 to 180. At the input 180 the code computes
  \<open>360 % 360 = 0\<close> and returns \<open>0 - 180\<close>: the result is -180, which is not 180 and does
  not lie above -180.
\<close>

theorem normalize180_at_180_counterexample:
  "normalize180 (Fin 180) \<noteq> Fin 180 \<and> \<not> nlt (Fin (- 180)) (normalize180 (Fin 180))"
  by (simp add: normalize180_at_180)

text \<open>
  Claim C3 as amended: the normalizer maps every finite input into the closed range
  [-180, 180], and it maps 180 to -180. Both ends are reached: 180 is the result at the
  double just below -180, where \<open>x + 360\<close> rounds up to 360.
\<close>

theorem normalize180_range:
  assumes "\<bar>d\<bar> \<le> max_double"
  shows "(\<exists>r. normalize180 (Fin d) = Fin r \<and> - 180 \<le> r \<and> r \<le> 180)
       \<and> normalize180 (Fin 180) = Fin (- 180)
       \<and> normalize180 (Fin edge_input) = Fin 180"
  using assms normalize180_bounds normalize180_at_180 normalize180_edge by blast

text \<open>
  Witness for C3 as amended: the input 180 is a finite double and its image -180 lies in
  the range.
\<close>

theorem normalize180_range_witness:
  "\<bar>180 :: real\<bar> \<le> max_double \<and> normalize180 (Fin 180) = Fin (- 180)
   \<and> normalize180 (Fin edge_input) = Fin 180"
proof -
  have "\<bar>180 :: real\<bar> \<le> max_double" by (simp add: max_double_def)
  from normalize180_range [OF this] this show ?thesis by simp
qed

text \<open>
  Claim C7 says that on every finite input the normalizer equals the reference
  definition, is idempotent and is periodic with period 360. At the double just below
  -180 the sum \<open>x + 360\<close> rounds to 360 and the code returns 180: applying it again gives
  -180, the input shifted by 360 gives -180, and the reference definition gives
  \<open>180 - 2 ^ - 45\<close>.
\<close>

theorem normalize180_edge_counterexample:
  "round64 edge_input = Fin edge_input
   \<and> normalize180 (normalize180 (Fin edge_input)) \<noteq> normalize180 (Fin edge_input)
   \<and> normalize180 (nadd (Fin edge_input) (Fin 360)) \<noteq> normalize180 (Fin edge_input)
   \<and> normalize180 (Fin edge_input) \<noteq> Fin (normalize_spec edge_input)"
proof -
  have "normalize180 (normalize180 (Fin edge_input)) = Fin (- 180)"
    by (simp only: normalize180_edge normalize180_at_180)
  then have "normalize180 (normalize180 (Fin edge_input)) \<noteq> normalize180 (Fin edge_input)"
    by (simp add: normalize180_edge)
  moreover have "normalize180 (nadd (Fin edge_input) (Fin 360))
      \<noteq> normalize180 (Fin edge_input)"
    by (simp only: normalize180_edge normalize180_edge_shifted) simp
  moreover have "normalize180 (Fin edge_input) \<noteq> Fin (normalize_spec edge_input)"
    by (simp only: normalize180_edge normalize_spec_edge) simp
  ultimately show ?thesis
    using edge_input_double by (intro conjI)
qed

text \<open>
  Claim C7 as amended: on every input whose additions are exact in double arithmetic the
  normalizer equals the reference definition, is idempotent and is periodic with period
  360, and it maps 190 to -170, -190 to 170 and 0 to 0. The additions are exact when the
  input is an integer multiple of \<open>2 powi k\<close> for some \<open>k \<le> 2\<close> and
  \<open>\<bar>d\<bar> + 540 < 2 powi (k + 53)\<close>: every integer of magnitude below \<open>2 ^ 53 - 540\<close>
  (\<open>k = 0\<close>), every multiple of \<open>2 ^ - 43\<close> of magnitude below 484, and so on.
\<close>

theorem normalize180_on_grid:
  assumes d: "d = of_int n * 2 powi k" and kmin: "- 1074 \<le> k" and k2: "k \<le> 2"
    and b: "\<bar>d\<bar> + 540 < 2 powi (k + 53)"
  shows "normalize180 (Fin d) = Fin (normalize_spec d)
       \<and> normalize180 (normalize180 (Fin d)) = normalize180 (Fin d)
       \<and> normalize180 (nadd (Fin d) (Fin 360)) = normalize180 (Fin d)
       \<and> normalize180 (Fin 190) = Fin (- 170)
       \<and> normalize180 (Fin (- 190)) = Fin 170
       \<and> normalize180 (Fin 0) = Fin 0"
proof -
  define g where "g = (2::real) powi k"
  define c where "c = (45 :: int) * 2 ^ nat (2 - k)"
  have c180: "(180::real) = of_int c * g"
    unfolding c_def g_def using k2 by (rule grid_180)
  have "of_int (2 * c) * g = 2 * (of_int c * g)" by simp
  also have "\<dots> = 2 * 180" by (simp only: c180 [symmetric])
  finally have c360: "(360::real) = of_int (2 * c) * g" by simp
  from b have b1: "\<bar>d\<bar> + 180 < 2 powi (k + 53)" and b2: "360 < (2::real) powi (k + 53)"
    by linarith+
  have n1: "normalize180 (Fin d) = Fin (floor_mod (d + 180) 360 - 180)"
    using d k2 kmin b1 b2 by (rule normalize180_exact)
  then have ref: "normalize180 (Fin d) = Fin (normalize_spec d)"
    by (simp add: normalize_spec_eq)
  define fm where "fm = floor_mod (d + 180) 360"
  have fr: "0 \<le> fm \<and> fm < 360" unfolding fm_def by (rule floor_mod_range) simp
  have "d + 180 = of_int (n + c) * g" by (simp add: d c180 g_def algebra_simps)
  then have "fm = of_int (n + c - 2 * c * \<lfloor>(d + 180) / 360\<rfloor>) * g"
    unfolding fm_def using c360 by (rule floor_mod_grid)
  then have rg: "fm - 180 = of_int (n + c - 2 * c * \<lfloor>(d + 180) / 360\<rfloor> - c) * 2 powi k"
    by (simp add: c180 g_def algebra_simps)
  from fr b2 have rb: "\<bar>fm - 180\<bar> + 180 < 2 powi (k + 53)" by linarith
  have "normalize180 (Fin (fm - 180)) = Fin (floor_mod (fm - 180 + 180) 360 - 180)"
    using rg k2 kmin rb b2 by (rule normalize180_exact)
  with fr have "normalize180 (Fin (fm - 180)) = Fin (fm - 180)"
    by (simp add: floor_mod_small)
  then have idem: "normalize180 (normalize180 (Fin d)) = normalize180 (Fin d)"
    by (simp add: n1 fm_def)
  have sg: "d + 360 = of_int (n + 2 * c) * 2 powi k"
    by (simp add: d c360 g_def algebra_simps)
  from b have sb: "\<bar>d + 360\<bar> < 2 powi (k + 53)" by linarith
  from sg sb kmin k2 have "round64 (d + 360) = Fin (d + 360)" by (rule grid_exact)
  then have s1: "nadd (Fin d) (Fin 360) = Fin (d + 360)" by simp
  from b have sb1: "\<bar>d + 360\<bar> + 180 < 2 powi (k + 53)" by linarith
  have "normalize180 (Fin (d + 360)) = Fin (floor_mod (d + 360 + 180) 360 - 180)"
    using sg k2 kmin sb1 b2 by (rule normalize180_exact)
  moreover have "floor_mod (d + 360 + 180) 360 = floor_mod (d + 180) 360"
    using floor_mod_shift [of 360 "d + 180"] by (simp add: add.commute add.left_commute)
  ultimately have "normalize180 (Fin (d + 360)) = Fin (floor_mod (d + 180) 360 - 180)"
    by simp
  then have per: "normalize180 (nadd (Fin d) (Fin 360)) = normalize180 (Fin d)"
    by (simp only: s1 n1)
  have e1: "normalize180 (Fin 190) = Fin (- 170)"
    using normalize180_exact [of 190 190 0] by (simp add: floor_mod_def)
  have e2: "normalize180 (Fin (- 190)) = Fin 170"
    using normalize180_exact [of "- 190" "- 190" 0] by (simp add: floor_mod_def)
  have e3: "normalize180 (Fin 0) = Fin 0"
    using normalize180_exact [of 0 0 0] by (simp add: floor_mod_def)
  from ref idem per e1 e2 e3 show ?thesis by simp
qed

text \<open>
  Witness for C7 as amended: 372.5 is 745 halves; it is normalized to 12.5, as the
  reference definition says.
\<close>

theorem normalize180_on_grid_witness:
  "(745 / 2 :: real) = of_int 745 * 2 powi (- 1)
   \<and> \<bar>745 / 2 :: real\<bar> + 540 < 2 powi (- 1 + 53)
   \<and> normalize180 (Fin (745 / 2)) = Fin (25 / 2)
   \<and> normalize180 (normalize180 (Fin (745 / 2))) = normalize180 (Fin (745 / 2))
   \<and> normalize180 (nadd (Fin (745 / 2)) (Fin 360)) = normalize180 (Fin (745 / 2))"
proof -
  have g: "(745 / 2 :: real) = of_int 745 * 2 powi (- 1)" by simp
  have b: "\<bar>745 / 2 :: real\<bar> + 540 < 2 powi (- 1 + 53)" by simp
  have v: "normalize_spec (745 / 2) = 25 / 2"
    by (simp add: normalize_spec_def floor_mod_def)
  have t: "normalize180 (Fin (745 / 2)) = Fin (normalize_spec (745 / 2))
       \<and> normalize180 (normalize180 (Fin (745 / 2))) = normalize180 (Fin (745 / 2))
       \<and> normalize180 (nadd (Fin (745 / 2)) (Fin 360)) = normalize180 (Fin (745 / 2))
       \<and> normalize180 (Fin 190) = Fin (- 170)
       \<and> normalize180 (Fin (- 190)) = Fin 170
       \<and> normalize180 (Fin 0) = Fin 0"
    using g _ _ b by (rule normalize180_on_grid) simp_all
  from t have "normalize180 (Fin (745 / 2)) = Fin (25 / 2)"
    by (simp only: v)
  with t g b show ?thesis by blast
qed

section \<open>Facts about the packet listener\<close>

lemma float32_zero: "float32_of_bytes 0 0 0 0 = Fin 0"
  by (simp add: float32_of_bytes_def)

lemma float_at_zeros: "i * 4 + 3 < n \<Longrightarrow> float_at (replicate n 0) i = Fin 0"
  by (simp add: float_at_def float32_zero)

lemma getFloat32_ok: "i * 4 + 4 \<le> length dv \<Longrightarrow> getFloat32 dv (i * 4) = Inr (float_at dv i)"
  by (simp add: getFloat32_def float_at_def)

lemma read_floats_short:
  "0 < n \<Longrightarrow> length dv < (i + n) * 4 \<Longrightarrow> read_floats dv i n = Inl RangeError"
proof (induction n arbitrary: i)
  case 0
  then show ?case by simp
next
  case (Suc n)
  show ?case
  proof (cases "length dv < i * 4 + 4")
    case True
    then show ?thesis by (simp add: getFloat32_def)
  next
    case False
    with Suc.prems have "0 < n" by (cases n) auto
    moreover from Suc.prems have "length dv < (Suc i + n) * 4" by simp
    ultimately have "read_floats dv (Suc i) n = Inl RangeError" by (rule Suc.IH)
    with False show ?thesis by (simp add: getFloat32_def)
  qed
qed

lemma read_floats_ok:
  "(i + n) * 4 \<le> length dv \<Longrightarrow> read_floats dv i n = Inr (map (float_at dv) [i..<i + n])"
proof (induction n arbitrary: i)
  case 0
  then show ?case by simp
next
  case (Suc n)
  from Suc.prems have "(Suc i + n) * 4 \<le> length dv" by simp
  then have "read_floats dv (Suc i) n = Inr (map (float_at dv) [Suc i..<Suc i + n])"
    by (rule Suc.IH)
  moreover from Suc.prems have "getFloat32 dv (i * 4) = Inr (float_at dv i)"
    by (simp add: getFloat32_ok)
  ultimately show ?case
    by (simp add: upt_rec)
qed

lemma packet_onChange_short:
  "length dv < 80 \<Longrightarrow> packet_onChange dv s = (Some RangeError, s)"
  using read_floats_short [of 20 dv 0] by (simp add: packet_onChange_def)

lemma packet_onChange_ok:
  assumes "80 \<le> length dv"
  shows "packet_onChange dv s = (None, scheduleEmitIfReady (store_values dv s))"
proof -
  define vs where "vs = map (float_at dv) [0..<0 + 20]"
  from assms have "read_floats dv 0 20 = Inr vs"
    unfolding vs_def by (intro read_floats_ok) simp
  moreover have "\<And>k. k < 20 \<Longrightarrow> vs ! k = float_at dv k"
    by (simp add: vs_def)
  ultimately show ?thesis
    by (simp add: packet_onChange_def store_values_def)
qed

lemma float_at_take: "i < 20 \<Longrightarrow> float_at (take 80 dv) i = float_at dv i"
  by (simp add: float_at_def)

lemma store_values_take: "store_values (take 80 dv) s = store_values dv s"
  by (simp add: store_values_def float_at_take)

lemma store_values_frame:
  "emitted (store_values dv s) = emitted s"
  "emitScheduled (store_values dv s) = emitScheduled s"
  "microtasks (store_values dv s) = microtasks s"
  "server (store_values dv s) = server s"
  "ready (store_values dv s)"
  by (simp_all add: store_values_def ready_def)

lemma ready_frame: "ready (s\<lparr>emitScheduled := a, microtasks := n\<rparr>) = ready s"
  by (simp add: ready_def)

lemma ready_schedule:
  "scheduleEmitIfReady (store_values dv s) =
     (if emitScheduled s then store_values dv s
      else (store_values dv s)\<lparr>emitScheduled := True, microtasks := Suc (microtasks s)\<rparr>)"
  by (simp add: scheduleEmitIfReady_def store_values_def)

lemma deliver_short: "length dv < 80 \<Longrightarrow> deliver s dv = s"
  by (simp add: deliver_def packet_onChange_short)

lemma deliver_ok:
  "80 \<le> length dv \<Longrightarrow> deliver s dv = scheduleEmitIfReady (store_values dv s)"
  by (simp add: deliver_def packet_onChange_ok)

lemma store_values_t5:
  "store_values packet_t5 s =
     s\<lparr>latestAccel := Some (Vec3 (Fin 0) (Fin 0) (Fin 0)),
       latestGyro := Some (Vec3 (Fin 0) (Fin 0) (Fin 0)),
       latestMag := Some (Vec3 (Fin 0) (Fin 0) (Fin 0)),
       latestGyroInt := Some (Euler (Fin 0) (Fin 0) (Fin 0)),
       latestFusion := Some (Euler (Fin 0) (Fin 0) (Fin 0)),
       latestFusionMag := Some (Euler (Fin 0) (Fin 0) (Fin 0)),
       latestTemp := Some (Fin 0),
       latestTimeSec := Some (Fin 5)\<rparr>"
  by (simp add: store_values_def float_at_def packet_t5_def nth_append float32_zero)
     (simp add: float32_of_bytes_def)

lemma store_values_nan:
  "store_values packet_nan s =
     s\<lparr>latestAccel := Some (Vec3 (Fin 0) (Fin 0) (Fin 0)),
       latestGyro := Some (Vec3 (Fin 0) (Fin 0) (Fin 0)),
       latestMag := Some (Vec3 (Fin 0) (Fin 0) (Fin 0)),
       latestGyroInt := Some (Euler (Fin 0) (Fin 0) (Fin 0)),
       latestFusion := Some (Euler (Fin 0) (Fin 0) (Fin 0)),
       latestFusionMag := Some (Euler (Fin 0) (Fin 0) (Fin 0)),
       latestTemp := Some (Fin 0),
       latestTimeSec := None\<rparr>"
  by (simp add: store_values_def float_at_def packet_nan_def nth_append float32_zero)
     (simp add: float32_of_bytes_def)

lemma getFloat32_nan: "getFloat32 packet_nan 76 = Inr NaN"
  by (simp add: getFloat32_def packet_nan_def nth_append float32_of_bytes_def)

section \<open>Facts about a scheduling turn\<close>

lemma emitMicrotask_snapshot:
  "emitMicrotask s = s\<lparr>emitScheduled := False, emitted := emitted s @ [Data (snapshot s)]\<rparr>"
  by (simp add: emitMicrotask_def emit_def snapshot_def)

lemma deliver_emitted: "emitted (deliver s dv) = emitted s"
  by (cases "length dv < 80")
     (simp_all add: deliver_short deliver_ok ready_schedule store_values_frame)

lemma deliver_pending:
  assumes "emitScheduled s" "microtasks s = 1" "ready s"
  shows "emitScheduled (deliver s dv) \<and> microtasks (deliver s dv) = 1 \<and> ready (deliver s dv)"
  using assms
  by (cases "length dv < 80")
     (simp_all add: deliver_short deliver_ok ready_schedule store_values_frame ready_frame)

lemma deliver_first:
  assumes "\<not> emitScheduled s" "microtasks s = 0" "80 \<le> length dv"
  shows "emitScheduled (deliver s dv) \<and> microtasks (deliver s dv) = 1 \<and> ready (deliver s dv)"
  using assms
  by (simp add: deliver_ok ready_schedule store_values_frame ready_frame)

lemma foldl_deliver_emitted: "emitted (foldl deliver s dvs) = emitted s"
  by (induction dvs arbitrary: s) (simp_all add: deliver_emitted)

lemma foldl_deliver_pending:
  assumes "emitScheduled s" "microtasks s = 1" "ready s"
  shows "emitScheduled (foldl deliver s dvs) \<and> microtasks (foldl deliver s dvs) = 1
         \<and> ready (foldl deliver s dvs)"
  using assms
proof (induction dvs arbitrary: s)
  case Nil
  then show ?case by simp
next
  case (Cons dv dvs)
  from Cons.prems
  have "emitScheduled (deliver s dv) \<and> microtasks (deliver s dv) = 1 \<and> ready (deliver s dv)"
    by (intro deliver_pending)
  then show ?case
    using Cons.IH [of "deliver s dv"] by simp
qed

text \<open>
  From a turn boundary (nothing scheduled, nothing queued) the first buffer of at least
  80 bytes queues the one flush of the turn; the later ones only overwrite the slots.
\<close>

lemma foldl_deliver_boundary:
  assumes "\<not> emitScheduled s" "microtasks s = 0"
  shows "if \<exists>dv\<in>set dvs. 80 \<le> length dv
         then emitScheduled (foldl deliver s dvs) \<and> microtasks (foldl deliver s dvs) = 1
              \<and> ready (foldl deliver s dvs)
         else foldl deliver s dvs = s"
  using assms
proof (induction dvs arbitrary: s)
  case Nil
  then show ?case by simp
next
  case (Cons dv dvs)
  show ?case
  proof (cases "80 \<le> length dv")
    case True
    with Cons.prems
    have "emitScheduled (deliver s dv) \<and> microtasks (deliver s dv) = 1 \<and> ready (deliver s dv)"
      by (intro deliver_first)
    then have "emitScheduled (foldl deliver (deliver s dv) dvs)
       \<and> microtasks (foldl deliver (deliver s dv) dvs) = 1
       \<and> ready (foldl deliver (deliver s dv) dvs)"
      by (intro foldl_deliver_pending) simp_all
    with True show ?thesis by simp
  next
    case False
    then have "deliver s dv = s" by (simp add: deliver_short)
    with False Cons.IH [of s] Cons.prems show ?thesis by simp
  qed
qed

lemma turn_emitted:
  assumes "\<not> emitScheduled s" "microtasks s = 0"
  shows "emitted (turn dvs s) =
           emitted s @ (if \<exists>dv\<in>set dvs. 80 \<le> length dv
                        then [Data (snapshot (foldl deliver s dvs))] else [])"
proof (cases "\<exists>dv\<in>set dvs. 80 \<le> length dv")
  case True
  with foldl_deliver_boundary [OF assms, of dvs]
  have "microtasks (foldl deliver s dvs) = 1" by simp
  with True show ?thesis
    by (simp add: turn_def runMicrotasks_def emitMicrotask_snapshot foldl_deliver_emitted
         snapshot_def)
next
  case False
  with foldl_deliver_boundary [OF assms, of dvs]
  have "foldl deliver s dvs = s" by simp
  with False assms show ?thesis
    by (simp add: turn_def runMicrotasks_def)
qed

text \<open>
  A set flag always has its closure in the queue, so every microtask checkpoint of a run
  ends at a turn boundary.
\<close>

lemma drain_unscheduled: "\<not> emitScheduled s \<Longrightarrow> \<not> emitScheduled (drain n s)"
  by (induction n arbitrary: s) (simp_all add: emitMicrotask_def emit_def)

lemma scheduled_queued_step:
  "(emitScheduled s \<longrightarrow> 0 < microtasks s)
   \<Longrightarrow> (emitScheduled (step s a) \<longrightarrow> 0 < microtasks (step s a))"
proof (cases a)
  case (Notify dv)
  assume "emitScheduled s \<longrightarrow> 0 < microtasks s"
  with Notify show ?thesis
    by (cases "length dv < 80")
       (simp_all add: deliver_short deliver_ok ready_schedule store_values_frame)
next
  case Disconnect
  then show ?thesis by (simp add: handleDisconnect_def emit_def)
next
  case Checkpoint
  assume inv: "emitScheduled s \<longrightarrow> 0 < microtasks s"
  show ?thesis
  proof (cases "microtasks s")
    case 0
    with inv Checkpoint show ?thesis by (simp add: runMicrotasks_def)
  next
    case (Suc n)
    have "\<not> emitScheduled (drain n (emitMicrotask t))" for t
      by (rule drain_unscheduled) (simp add: emitMicrotask_def emit_def)
    with Suc Checkpoint show ?thesis by (simp add: runMicrotasks_def)
  qed
qed

lemma scheduled_queued_run:
  "(emitScheduled s \<longrightarrow> 0 < microtasks s)
   \<Longrightarrow> (emitScheduled (run acts s) \<longrightarrow> 0 < microtasks (run acts s))"
  unfolding run_def
proof (induction acts arbitrary: s)
  case Nil
  then show ?case by simp
next
  case (Cons a acts)
  from Cons.prems have "emitScheduled (step s a) \<longrightarrow> 0 < microtasks (step s a)"
    by (rule scheduled_queued_step)
  then show ?case
    using Cons.IH [of "step s a"] by simp
qed

lemma drain_microtasks: "microtasks (drain n s) = microtasks s"
  by (induction n arbitrary: s) (simp_all add: emitMicrotask_snapshot)

lemma checkpoint_boundary:
  "\<not> emitScheduled (run (acts @ [Checkpoint]) ble_init)
   \<and> microtasks (run (acts @ [Checkpoint]) ble_init) = 0"
proof -
  let ?s = "run acts ble_init"
  have r: "run (acts @ [Checkpoint]) ble_init = runMicrotasks ?s"
    by (simp add: run_def)
  have "emitScheduled ble_init \<longrightarrow> 0 < microtasks ble_init"
    by (simp add: ble_init_def)
  then have "emitScheduled ?s \<longrightarrow> 0 < microtasks ?s"
    by (rule scheduled_queued_run)
  then have "emitScheduled (step ?s Checkpoint) \<longrightarrow> 0 < microtasks (step ?s Checkpoint)"
    by (rule scheduled_queued_step)
  moreover have "microtasks (runMicrotasks ?s) = 0"
    by (simp add: runMicrotasks_def drain_microtasks)
  ultimately show ?thesis
    by (simp add: r)
qed

section \<open>The time slot stays finite\<close>

lemma time_ok_init: "time_ok ble_init"
  by (simp add: time_ok_def ble_init_def)

lemma time_ok_store_values: "time_ok s \<Longrightarrow> time_ok (store_values dv s)"
  by (simp add: time_ok_def store_values_def)

lemma time_ok_frame:
  "time_ok (s\<lparr>emitScheduled := a, microtasks := n\<rparr>) = time_ok s"
  "time_ok (s\<lparr>microtasks := n\<rparr>) = time_ok s"
  "time_ok (s\<lparr>emitScheduled := a\<rparr>) = time_ok s"
  by (simp_all add: time_ok_def)

lemma time_ok_deliver: "time_ok s \<Longrightarrow> time_ok (deliver s dv)"
  by (cases "length dv < 80")
     (simp_all add: deliver_short deliver_ok ready_schedule time_ok_store_values time_ok_frame)

lemma time_ok_handleDisconnect: "time_ok s \<Longrightarrow> time_ok (handleDisconnect s)"
  by (simp add: time_ok_def handleDisconnect_def emit_def)

lemma time_ok_emitMicrotask: "time_ok s \<Longrightarrow> time_ok (emitMicrotask s)"
  by (simp add: time_ok_def emitMicrotask_def emit_def split: option.splits)

lemma time_ok_drain: "time_ok s \<Longrightarrow> time_ok (drain n s)"
  by (induction n arbitrary: s) (simp_all add: time_ok_emitMicrotask)

lemma time_ok_step: "time_ok s \<Longrightarrow> time_ok (step s a)"
  by (cases a)
     (simp_all add: time_ok_deliver time_ok_handleDisconnect runMicrotasks_def time_ok_drain
        time_ok_frame)

lemma time_ok_run: "time_ok s \<Longrightarrow> time_ok (run acts s)"
  unfolding run_def
  by (induction acts arbitrary: s) (simp_all add: time_ok_step)

lemma run_nan: "emitted (run [Notify packet_nan, Checkpoint] ble_init) = [Data zero_sample]"
  by (simp add: run_def deliver_ok packet_nan_def [THEN arg_cong, of length] store_values_nan
       scheduleEmitIfReady_def runMicrotasks_def emitMicrotask_def emit_def ble_init_def
       zero_sample_def)

section \<open>Facts about the application\<close>

lemma evict_dropWhile: "evict c ts = dropWhile (\<lambda>h. nlt h c) ts"
  by (induction ts) simp_all

lemma handleSensorData_window:
  "msgTimestamps (snd (handleSensorData d s)) =
     (let nowSec = (if isFinite (dev_t d) then dev_t d
                    else if msgTimestamps s \<noteq> [] then last (msgTimestamps s) else Fin 0)
      in evict (nsub nowSec (Fin 1)) (msgTimestamps s @ [nowSec]))
   \<and> msgRate (snd (handleSensorData d s)) = length (msgTimestamps (snd (handleSensorData d s)))"
  by (simp add: handleSensorData_def Let_def split: option.split)

text \<open>The handler on a sample with all mandatory fields, the model being loaded.\<close>

lemma handleSensorData_ok:
  assumes "accel d = Some a" "gyro d = Some g" "mag d = Some m" "temperature d = Some T"
    and "pcbModel s = Some calls"
  shows "handleSensorData d s =
     (let nowSec = (if isFinite (dev_t d) then dev_t d
                    else if msgTimestamps s \<noteq> [] then last (msgTimestamps s) else Fin 0);
          ts = evict (nsub nowSec (Fin 1)) (msgTimestamps s @ [nowSec])
      in (None, s\<lparr>msgTimestamps := ts, msgRate := length ts,
              prevDeviceTimeSec := (if isFinite (dev_t d) then Some (dev_t d) else None),
              pcbModel := Some (calls @ dispatch (mode s) d a
                 (case prevDeviceTimeSec s of
                    None \<Rightarrow> Fin 0
                  | Some p \<Rightarrow> if isFinite (dev_t d)
                              then nmax (Fin 0) (nsub (dev_t d) p) else Fin 0))\<rparr>))"
  using assms by (simp add: handleSensorData_def Let_def)

text \<open>The anchor is null or finite after every sample and after a switch to gyro mode.\<close>

lemma anchor_finite:
  "(case prevDeviceTimeSec s of None \<Rightarrow> True | Some p \<Rightarrow> isFinite p)
   \<Longrightarrow> (case prevDeviceTimeSec (snd (handleSensorData d s)) of
          None \<Rightarrow> True | Some p \<Rightarrow> isFinite p)"
  by (simp add: handleSensorData_def Let_def split: option.splits)


text \<open>Differences and literals that the examples need.\<close>

lemma round64_half: "round64 (1 / 2) = Fin (1 / 2)"
  by (rule grid_exact [where m = 1 and k = "- 1"]) simp_all

lemma round64_minus_half: "round64 (- (1 / 2)) = Fin (- (1 / 2))"
  by (rule grid_exact [where m = "- 1" and k = "- 1"]) simp_all

lemma round64_near_one: "round64 (1 - tiny_anchor) = Fin 1"
proof -
  have "round64 (1 - tiny_anchor) =
     (let u = 2 powi (- 1 - 52); r = of_int (rne ((1 - tiny_anchor) / u)) * u
      in if 2 ^ 1024 \<le> \<bar>r\<bar> then (if 0 < 1 - tiny_anchor then PosInf else NegInf)
         else Fin r)"
    by (rule round64_at) (simp_all add: tiny_anchor_def)
  moreover have "rne ((1 - tiny_anchor) / 2 powi (- 1 - 52)) = 2 ^ 53"
    by (simp add: rne_def tiny_anchor_def)
  ultimately show ?thesis by (simp add: Let_def)
qed

lemma nsub_tiny_anchor: "nsub (Fin tiny_anchor) (Fin 1) = Fin (- 1)"
proof -
  have "round64 (tiny_anchor + - 1) =
     (let u = 2 powi (- 1 - 52); r = of_int (rne ((tiny_anchor + - 1) / u)) * u
      in if 2 ^ 1024 \<le> \<bar>r\<bar> then (if 0 < tiny_anchor + - 1 then PosInf else NegInf)
         else Fin r)"
    by (rule round64_at) (simp_all add: tiny_anchor_def)
  moreover have "rne ((tiny_anchor + - 1) / 2 powi (- 1 - 52)) = - (2 ^ 53)"
    by (simp add: rne_def tiny_anchor_def)
  ultimately have "round64 (tiny_anchor + - 1) = Fin (- 1)" by (simp add: Let_def)
  then show ?thesis by (simp only: nsub_def nneg.simps nadd.simps)
qed

lemma round64_literal_02: "round64 0.2 = Fin (7205759403792794 / 2 ^ 55)"
proof -
  have "round64 0.2 =
     (let u = 2 powi (- 3 - 52); r = of_int (rne (0.2 / u)) * u
      in if 2 ^ 1024 \<le> \<bar>r\<bar> then (if 0 < (0.2 :: real) then PosInf else NegInf)
         else Fin r)"
    by (rule round64_at) simp_all
  moreover have "rne (0.2 / 2 powi (- 3 - 52)) = 7205759403792794"
    by (simp add: rne_def)
  ultimately show ?thesis by (simp add: Let_def)
qed

lemma round64_literal_12: "round64 1.2 = Fin (5404319552844595 / 2 ^ 52)"
proof -
  have "round64 1.2 =
     (let u = 2 powi (0 - 52); r = of_int (rne (1.2 / u)) * u
      in if 2 ^ 1024 \<le> \<bar>r\<bar> then (if 0 < (1.2 :: real) then PosInf else NegInf)
         else Fin r)"
    by (rule round64_at) simp_all
  moreover have "rne (1.2 / 2 powi (0 - 52)) = 5404319552844595"
    by (simp add: rne_def)
  ultimately show ?thesis by (simp add: Let_def)
qed

lemma nsub_literal_12:
  "nsub (Fin (5404319552844595 / 2 ^ 52)) (Fin 1) = Fin (900719925474099 / 2 ^ 52)"
proof -
  have "round64 (900719925474099 / 2 ^ 52) = Fin (900719925474099 / 2 ^ 52)"
    by (rule grid_exact [where m = 900719925474099 and k = "- 52"]) simp_all
  moreover have "5404319552844595 / 2 ^ 52 + - 1 = (900719925474099 / 2 ^ 52 :: real)"
    by simp
  ultimately show ?thesis by (simp only: nsub_def nneg.simps nadd.simps)
qed

lemma round64_unit:
  assumes "0 \<le> c" and "c \<le> 1"
  shows "\<exists>v. round64 c = Fin v \<and> 0 \<le> v \<and> v \<le> 1"
proof (rule round64_grid_between [where a = 0 and b = "2 ^ 52" and j = "- 52"])
  from assms show "0 \<le> c" "c \<le> 1" by simp_all
  show "(0 :: real) = of_int 0 * 2 powi (- 52)" by simp
  show "(1 :: real) = of_int (2 ^ 52) * 2 powi (- 52)" by simp
  from assms show "\<bar>c\<bar> < 2 powi (- 52 + 53)" by simp
qed simp_all

lemma nsub_unit:
  assumes "0 \<le> v" and "v \<le> 1"
  shows "\<exists>w. nsub (Fin v) (Fin 1) = Fin w \<and> w \<le> 0"
proof -
  have "\<exists>w. round64 (v + - 1) = Fin w \<and> - 1 \<le> w \<and> w \<le> 0"
  proof (rule round64_grid_between [where a = "- (2 ^ 52)" and b = 0 and j = "- 52"])
    from assms show "- 1 \<le> v + - 1" "v + - 1 \<le> 0" by simp_all
    show "(- 1 :: real) = of_int (- (2 ^ 52)) * 2 powi (- 52)" by simp
    show "(0 :: real) = of_int 0 * 2 powi (- 52)" by simp
    from assms show "\<bar>v + - 1\<bar> < 2 powi (- 52 + 53)" by simp
  qed simp_all
  then show ?thesis by (auto simp add: nsub_def)
qed

text \<open>
  While the device time has not passed 1, the threshold is not positive and a window of
  non-negative entries only grows.
\<close>

lemma window_grows:
  assumes "0 \<le> v" and "v \<le> 1" and "msgTimestamps s = Fin h # rest" and "0 \<le> h"
  shows "msgTimestamps (snd (handleSensorData (sample_at (Fin v)) s))
           = msgTimestamps s @ [Fin v]"
proof -
  from assms(1,2) obtain w where w: "nsub (Fin v) (Fin 1) = Fin w" "w \<le> 0"
    using nsub_unit by blast
  with assms(3,4) show ?thesis
    by (simp add: handleSensorData_window sample_at_def)
qed

lemma window_first:
  "msgTimestamps (snd (handleSensorData (sample_at (Fin 0)) app_init)) = [Fin 0]"
proof -
  obtain w where w: "nsub (Fin 0) (Fin 1) = Fin w" "w \<le> 0"
    using nsub_unit [of 0] by auto
  then show ?thesis
    by (simp add: handleSensorData_window sample_at_def app_init_def)
qed

lemma seven_samples:
  "msgRate (feed app_init (map (sample_at \<circ> round64) [0.0, 0.2, 0.4, 0.6, 0.8, 1.0, 1.2])) = 6"
proof -
  define v1 :: real where "v1 = 7205759403792794 / 2 ^ 55"
  define v6 :: real where "v6 = 5404319552844595 / 2 ^ 52"
  have r0: "round64 0.0 = Fin 0" by (simp add: round64_def)
  have r1: "round64 0.2 = Fin v1" unfolding v1_def by (rule round64_literal_02)
  obtain v2 where r2: "round64 0.4 = Fin v2" and b2: "0 \<le> v2" "v2 \<le> 1"
    using round64_unit [of "0.4"] by auto
  obtain v3 where r3: "round64 0.6 = Fin v3" and b3: "0 \<le> v3" "v3 \<le> 1"
    using round64_unit [of "0.6"] by auto
  obtain v4 where r4: "round64 0.8 = Fin v4" and b4: "0 \<le> v4" "v4 \<le> 1"
    using round64_unit [of "0.8"] by auto
  obtain v5 where r5: "round64 1.0 = Fin v5" and b5: "0 \<le> v5" "v5 \<le> 1"
    using round64_unit [of "1.0"] by auto
  have r6: "round64 1.2 = Fin v6" unfolding v6_def by (rule round64_literal_12)
  have b1: "0 \<le> v1" "v1 \<le> 1" by (simp_all add: v1_def)
  define s1 where "s1 = snd (handleSensorData (sample_at (Fin 0)) app_init)"
  define s2 where "s2 = snd (handleSensorData (sample_at (Fin v1)) s1)"
  define s3 where "s3 = snd (handleSensorData (sample_at (Fin v2)) s2)"
  define s4 where "s4 = snd (handleSensorData (sample_at (Fin v3)) s3)"
  define s5 where "s5 = snd (handleSensorData (sample_at (Fin v4)) s4)"
  define s6 where "s6 = snd (handleSensorData (sample_at (Fin v5)) s5)"
  define s7 where "s7 = snd (handleSensorData (sample_at (Fin v6)) s6)"
  have w1: "msgTimestamps s1 = [Fin 0]"
    unfolding s1_def by (rule window_first)
  have w2: "msgTimestamps s2 = [Fin 0, Fin v1]"
    unfolding s2_def using window_grows [OF b1 w1] by (simp add: w1)
  have w3: "msgTimestamps s3 = [Fin 0, Fin v1, Fin v2]"
    unfolding s3_def using window_grows [OF b2 w2] by (simp add: w2)
  have w4: "msgTimestamps s4 = [Fin 0, Fin v1, Fin v2, Fin v3]"
    unfolding s4_def using window_grows [OF b3 w3] by (simp add: w3)
  have w5: "msgTimestamps s5 = [Fin 0, Fin v1, Fin v2, Fin v3, Fin v4]"
    unfolding s5_def using window_grows [OF b4 w4] by (simp add: w4)
  have w6: "msgTimestamps s6 = [Fin 0, Fin v1, Fin v2, Fin v3, Fin v4, Fin v5]"
    unfolding s6_def using window_grows [OF b5 w5] by (simp add: w5)
  have t: "nsub (Fin v6) (Fin 1) = Fin (900719925474099 / 2 ^ 52)"
    unfolding v6_def by (rule nsub_literal_12)
  have "msgTimestamps s7 = [Fin v1, Fin v2, Fin v3, Fin v4, Fin v5, Fin v6]"
    unfolding s7_def
    by (simp add: handleSensorData_window sample_at_def w6 t) (simp add: v1_def)
  moreover have "msgRate s7 = length (msgTimestamps s7)"
    unfolding s7_def using handleSensorData_window by blast
  ultimately have "msgRate s7 = 6" by simp
  moreover have "feed app_init (map (sample_at \<circ> round64) [0.0, 0.2, 0.4, 0.6, 0.8, 1.0, 1.2])
      = s7"
    by (simp only: feed_def list.map comp_def foldl.simps r0 r1 r2 r3 r4 r5 r6
         s1_def s2_def s3_def s4_def s5_def s6_def s7_def)
  ultimately show ?thesis by simp
qed

section \<open>Packets of the wrong length\<close>

text \<open>
  Claim C1 says that a notification buffer whose length is not exactly 80 bytes produces
  no sample and has no side effect. The listener never looks at the length: a buffer of
  84 zero bytes has its first 80 bytes decoded, the slots are written (the accel slot of
  the initial manager goes from null to a vector) and the turn emits a sample.
\<close>

theorem long_packet_counterexample:
  "length (replicate 84 (0::byte)) \<noteq> 80
   \<and> latestAccel ble_init = None
   \<and> latestAccel (snd (packet_onChange (replicate 84 0) ble_init))
       = Some (Vec3 (Fin 0) (Fin 0) (Fin 0))
   \<and> emitted (turn [replicate 84 0] ble_init) = [Data zero_sample]"
  by (simp add: turn_def deliver_ok packet_onChange_ok scheduleEmitIfReady_def
       store_values_def float_at_zeros ble_init_def runMicrotasks_def emitMicrotask_def
       emit_def zero_sample_def)

text \<open>
  Claim C1 as amended: a buffer shorter than 80 bytes produces no sample and changes
  nothing, neither a cached slot nor a connection field: the listener ends with the
  RangeError of the first read that leaves the buffer, before any assignment. A buffer of
  80 bytes or more is accepted, and one longer than 80 bytes is handled exactly as its
  first 80 bytes: the eight slots are written with the floats decoded at offsets 0 to 76,
  and an emission is scheduled (queued, unless one is pending already).
\<close>

theorem packet_length:
  "(length dv < 80 \<longrightarrow> packet_onChange dv s = (Some RangeError, s))
   \<and> (80 \<le> length dv \<longrightarrow>
        fst (packet_onChange dv s) = None
      \<and> packet_onChange dv s = packet_onChange (take 80 dv) s
      \<and> latestAccel (snd (packet_onChange dv s)) \<noteq> None
      \<and> snd (packet_onChange dv s) = scheduleEmitIfReady (store_values dv s)
      \<and> latestAccel (snd (packet_onChange dv s))
          = Some (Vec3 (float_at dv 0) (float_at dv 1) (float_at dv 2))
      \<and> latestGyro (snd (packet_onChange dv s))
          = Some (Vec3 (float_at dv 3) (float_at dv 4) (float_at dv 5))
      \<and> latestMag (snd (packet_onChange dv s))
          = Some (Vec3 (float_at dv 6) (float_at dv 7) (float_at dv 8))
      \<and> latestGyroInt (snd (packet_onChange dv s))
          = Some (Euler (float_at dv 9) (float_at dv 10) (float_at dv 11))
      \<and> latestFusion (snd (packet_onChange dv s))
          = Some (Euler (float_at dv 12) (float_at dv 13) (float_at dv 14))
      \<and> latestFusionMag (snd (packet_onChange dv s))
          = Some (Euler (float_at dv 15) (float_at dv 16) (float_at dv 17))
      \<and> latestTemp (snd (packet_onChange dv s)) = Some (float_at dv 18)
      \<and> latestTimeSec (snd (packet_onChange dv s))
          = (if isFinite (float_at dv 19) then Some (float_at dv 19) else None)
      \<and> emitScheduled (snd (packet_onChange dv s))
      \<and> microtasks (snd (packet_onChange dv s))
          = (if emitScheduled s then microtasks s else Suc (microtasks s)))"
proof -
  have short: "length dv < 80 \<longrightarrow> packet_onChange dv s = (Some RangeError, s)"
    by (simp add: packet_onChange_short)
  have long: "fst (packet_onChange dv s) = None
      \<and> packet_onChange dv s = packet_onChange (take 80 dv) s
      \<and> latestAccel (snd (packet_onChange dv s)) \<noteq> None
      \<and> snd (packet_onChange dv s) = scheduleEmitIfReady (store_values dv s)
      \<and> latestAccel (snd (packet_onChange dv s))
          = Some (Vec3 (float_at dv 0) (float_at dv 1) (float_at dv 2))
      \<and> latestGyro (snd (packet_onChange dv s))
          = Some (Vec3 (float_at dv 3) (float_at dv 4) (float_at dv 5))
      \<and> latestMag (snd (packet_onChange dv s))
          = Some (Vec3 (float_at dv 6) (float_at dv 7) (float_at dv 8))
      \<and> latestGyroInt (snd (packet_onChange dv s))
          = Some (Euler (float_at dv 9) (float_at dv 10) (float_at dv 11))
      \<and> latestFusion (snd (packet_onChange dv s))
          = Some (Euler (float_at dv 12) (float_at dv 13) (float_at dv 14))
      \<and> latestFusionMag (snd (packet_onChange dv s))
          = Some (Euler (float_at dv 15) (float_at dv 16) (float_at dv 17))
      \<and> latestTemp (snd (packet_onChange dv s)) = Some (float_at dv 18)
      \<and> latestTimeSec (snd (packet_onChange dv s))
          = (if isFinite (float_at dv 19) then Some (float_at dv 19) else None)
      \<and> emitScheduled (snd (packet_onChange dv s))
      \<and> microtasks (snd (packet_onChange dv s))
          = (if emitScheduled s then microtasks s else Suc (microtasks s))"
    if len: "80 \<le> length dv"
  proof -
    from len have p: "packet_onChange dv s = (None, scheduleEmitIfReady (store_values dv s))"
      by (rule packet_onChange_ok)
    have q: "packet_onChange (take 80 dv) s
               = (None, scheduleEmitIfReady (store_values (take 80 dv) s))"
      using len by (intro packet_onChange_ok) simp
    have f: "snd (packet_onChange dv s) =
        (if emitScheduled s then store_values dv s
         else (store_values dv s)\<lparr>emitScheduled := True, microtasks := Suc (microtasks s)\<rparr>)"
      by (simp add: p ready_schedule)
    have "packet_onChange dv s = packet_onChange (take 80 dv) s"
      by (simp add: p q store_values_take)
    moreover have "snd (packet_onChange dv s) = scheduleEmitIfReady (store_values dv s)"
      by (simp add: p)
    moreover have "fst (packet_onChange dv s) = None"
      by (simp add: p)
    moreover have "emitScheduled (snd (packet_onChange dv s))"
      by (simp add: f store_values_frame)
    moreover have "microtasks (snd (packet_onChange dv s))
          = (if emitScheduled s then microtasks s else Suc (microtasks s))"
      by (simp add: f store_values_frame)
    moreover have "latestAccel (snd (packet_onChange dv s))
          = Some (Vec3 (float_at dv 0) (float_at dv 1) (float_at dv 2))"
      by (simp add: f store_values_def)
    moreover have "latestGyro (snd (packet_onChange dv s))
          = Some (Vec3 (float_at dv 3) (float_at dv 4) (float_at dv 5))"
      by (simp add: f store_values_def)
    moreover have "latestMag (snd (packet_onChange dv s))
          = Some (Vec3 (float_at dv 6) (float_at dv 7) (float_at dv 8))"
      by (simp add: f store_values_def)
    moreover have "latestGyroInt (snd (packet_onChange dv s))
          = Some (Euler (float_at dv 9) (float_at dv 10) (float_at dv 11))"
      by (simp add: f store_values_def)
    moreover have "latestFusion (snd (packet_onChange dv s))
          = Some (Euler (float_at dv 12) (float_at dv 13) (float_at dv 14))"
      by (simp add: f store_values_def)
    moreover have "latestFusionMag (snd (packet_onChange dv s))
          = Some (Euler (float_at dv 15) (float_at dv 16) (float_at dv 17))"
      by (simp add: f store_values_def)
    moreover have "latestTemp (snd (packet_onChange dv s)) = Some (float_at dv 18)"
      by (simp add: f store_values_def)
    moreover have "latestTimeSec (snd (packet_onChange dv s))
          = (if isFinite (float_at dv 19) then Some (float_at dv 19) else None)"
      by (simp add: f store_values_def)
    ultimately show ?thesis by simp
  qed
  from short long show ?thesis by blast
qed

text \<open>
  Witness for C1 as amended: 79 zero bytes leave the initial manager as it is; 84 zero
  bytes are handled as 80 zero bytes, write the accel slot and queue one flush.
\<close>

theorem packet_length_witness:
  "length (replicate 79 (0::byte)) < 80
   \<and> packet_onChange (replicate 79 0) ble_init = (Some RangeError, ble_init)
   \<and> 80 \<le> length (replicate 84 (0::byte))
   \<and> packet_onChange (replicate 84 0) ble_init = packet_onChange (replicate 80 0) ble_init
   \<and> latestAccel (snd (packet_onChange (replicate 84 0) ble_init))
       = Some (Vec3 (Fin 0) (Fin 0) (Fin 0))
   \<and> emitScheduled (snd (packet_onChange (replicate 84 0) ble_init))
   \<and> microtasks (snd (packet_onChange (replicate 84 0) ble_init)) = 1"
proof -
  have l79: "length (replicate 79 (0::byte)) < 80" by simp
  have l84: "80 \<le> length (replicate 84 (0::byte))" by simp
  note short = packet_length [of "replicate 79 0" ble_init, THEN conjunct1, THEN mp, OF l79]
  note long = packet_length [of "replicate 84 0" ble_init, THEN conjunct2, THEN mp, OF l84]
  have z: "float_at (replicate 84 0) 0 = Fin 0" "float_at (replicate 84 0) 1 = Fin 0"
    "float_at (replicate 84 0) 2 = Fin 0"
    by (simp_all add: float_at_zeros)
  have i: "\<not> emitScheduled ble_init" "microtasks ble_init = 0"
    by (simp_all add: ble_init_def)
  from long have "packet_onChange (replicate 84 0) ble_init
      = packet_onChange (take 80 (replicate 84 0)) ble_init"
    by blast
  then have e: "packet_onChange (replicate 84 0) ble_init
      = packet_onChange (replicate 80 0) ble_init"
    by simp
  from long have "latestAccel (snd (packet_onChange (replicate 84 0) ble_init))
      = Some (Vec3 (float_at (replicate 84 0) 0) (float_at (replicate 84 0) 1)
                (float_at (replicate 84 0) 2))"
    by blast
  then have a: "latestAccel (snd (packet_onChange (replicate 84 0) ble_init))
      = Some (Vec3 (Fin 0) (Fin 0) (Fin 0))"
    by (simp only: z)
  from long have f: "emitScheduled (snd (packet_onChange (replicate 84 0) ble_init))"
    by blast
  from long have "microtasks (snd (packet_onChange (replicate 84 0) ble_init))
      = (if emitScheduled ble_init then microtasks ble_init else Suc (microtasks ble_init))"
    by blast
  with i have m: "microtasks (snd (packet_onChange (replicate 84 0) ble_init)) = 1"
    by simp
  from l79 short l84 e a f m show ?thesis by (intro conjI)
qed

section \<open>Disconnecting\<close>

text \<open>
  Claim C2 says that a disconnect clears the pending-emission flag and every cached slot,
  the device-time slot included, before the disconnected event is seen.
  \<^verbatim>\<open>handleDisconnect\<close> clears the flag and seven slots and then emits the event, but it
  never assigns \<^verbatim>\<open>latestTimeSec\<close>: in every state the time slot survives, and after a turn
  that delivered a packet with device time 5.0 the slot still holds 5.0 once the manager
  has disconnected.
\<close>

theorem handleDisconnect_keeps_time:
  "latestTimeSec (handleDisconnect s) = latestTimeSec s
   \<and> latestTimeSec (handleDisconnect (turn [packet_t5] ble_init)) = Some (Fin 5)
   \<and> latestAccel (handleDisconnect s) = None \<and> latestGyro (handleDisconnect s) = None
   \<and> latestMag (handleDisconnect s) = None \<and> latestGyroInt (handleDisconnect s) = None
   \<and> latestFusion (handleDisconnect s) = None \<and> latestFusionMag (handleDisconnect s) = None
   \<and> latestTemp (handleDisconnect s) = None \<and> \<not> emitScheduled (handleDisconnect s)
   \<and> emitted (handleDisconnect s) = emitted s @ [Disconnected]"
proof -
  have "latestTimeSec (turn [packet_t5] ble_init) = Some (Fin 5)"
    by (simp add: turn_def deliver_ok packet_t5_def [THEN arg_cong, of length]
         store_values_t5 scheduleEmitIfReady_def runMicrotasks_def emitMicrotask_def emit_def
         ble_init_def)
  then show ?thesis
    by (simp add: handleDisconnect_def emit_def)
qed

section \<open>Coalesced emission\<close>

text \<open>
  A turn that starts at a turn boundary and only delivers buffers: while a mandatory slot
  is null nothing is scheduled; the turn appends at most one event, a sample with the four
  mandatory fields set; and it emits exactly one sample as soon as one buffer is decoded.
\<close>

lemma turn_of_deliveries:
  assumes "\<not> emitScheduled s" and "microtasks s = 0"
  shows "(latestAccel s = None \<or> latestGyro s = None \<or> latestMag s = None
            \<or> latestTemp s = None
          \<longrightarrow> scheduleEmitIfReady s = s
              \<and> emitted (runMicrotasks (scheduleEmitIfReady s)) = emitted s)
       \<and> (\<exists>new. emitted (turn dvs s) = emitted s @ new \<and> length new \<le> 1
             \<and> (\<forall>p. Data p \<in> set new \<longrightarrow>
                    accel p \<noteq> None \<and> gyro p \<noteq> None \<and> mag p \<noteq> None
                    \<and> temperature p \<noteq> None))
       \<and> ((\<exists>dv\<in>set dvs. 80 \<le> length dv)
            \<longrightarrow> (\<exists>p. emitted (turn dvs s) = emitted s @ [Data p]))"
proof -
  have a: "latestAccel s = None \<or> latestGyro s = None \<or> latestMag s = None
            \<or> latestTemp s = None
          \<longrightarrow> scheduleEmitIfReady s = s
              \<and> emitted (runMicrotasks (scheduleEmitIfReady s)) = emitted s"
    using assms by (auto simp add: scheduleEmitIfReady_def runMicrotasks_def)
  have b: "\<exists>new. emitted (turn dvs s) = emitted s @ new \<and> length new \<le> 1
             \<and> (\<forall>p. Data p \<in> set new \<longrightarrow>
                    accel p \<noteq> None \<and> gyro p \<noteq> None \<and> mag p \<noteq> None
                    \<and> temperature p \<noteq> None)"
  proof (cases "\<exists>dv\<in>set dvs. 80 \<le> length dv")
    case True
    with foldl_deliver_boundary [OF assms, of dvs]
    have "ready (foldl deliver s dvs)" by simp
    then show ?thesis
      using True by (simp add: turn_emitted [OF assms] snapshot_def ready_def)
  next
    case False
    then show ?thesis
      by (simp add: turn_emitted [OF assms])
  qed
  have c: "(\<exists>dv\<in>set dvs. 80 \<le> length dv)
            \<longrightarrow> (\<exists>p. emitted (turn dvs s) = emitted s @ [Data p])"
    by (simp add: turn_emitted [OF assms])
  from a b c show ?thesis by blast
qed




section \<open>The device time of an emitted sample\<close>

text \<open>
  Claim C10: every sample the BLE manager emits carries a finite device time. Whatever
  buffers arrive, whenever the manager disconnects and whenever the queued flushes run,
  each emitted sample has a finite \<^verbatim>\<open>t\<close>; and when the float at byte offset 76 (index 19)
  is not finite, the time slot is set to null and a flush emits \<open>t = 0\<close>.
\<close>

theorem emitted_time_finite:
  "(\<forall>p. Data p \<in> set (emitted (run acts ble_init)) \<longrightarrow> isFinite (dev_t p))
   \<and> (getFloat32 dv 76 = Inr v \<and> \<not> isFinite v \<longrightarrow>
        latestTimeSec (deliver s dv) = None
      \<and> (\<exists>p. emitted (emitMicrotask (deliver s dv)) = emitted s @ [Data p]
             \<and> dev_t p = Fin 0))"
proof -
  have "time_ok (run acts ble_init)"
    by (intro time_ok_run time_ok_init)
  then have "list_all (\<lambda>ev. case ev of Data p \<Rightarrow> isFinite (dev_t p) | _ \<Rightarrow> True)
               (emitted (run acts ble_init))"
    by (simp add: time_ok_def)
  then have a: "\<forall>p. Data p \<in> set (emitted (run acts ble_init)) \<longrightarrow> isFinite (dev_t p)"
    by (auto simp add: list_all_iff)
  have b: "latestTimeSec (deliver s dv) = None
      \<and> (\<exists>p. emitted (emitMicrotask (deliver s dv)) = emitted s @ [Data p]
             \<and> dev_t p = Fin 0)"
    if g: "getFloat32 dv 76 = Inr v" and nf: "\<not> isFinite v"
  proof -
    from g have len: "80 \<le> length dv"
      by (simp add: getFloat32_def split: if_splits)
    with g have "float_at dv 19 = v"
      using getFloat32_ok [of 19 dv] by simp
    with nf have t: "latestTimeSec (store_values dv s) = None"
      by (simp add: store_values_def)
    from len have d: "deliver s dv = scheduleEmitIfReady (store_values dv s)"
      by (rule deliver_ok)
    from t have "latestTimeSec (deliver s dv) = None"
      by (simp add: d ready_schedule)
    moreover have "emitted (deliver s dv) = emitted s"
      by (rule deliver_emitted)
    ultimately show ?thesis
      by (simp add: emitMicrotask_snapshot snapshot_def)
  qed
  from a b show ?thesis by blast
qed

text \<open>
  Witness for C10: a packet whose last float is a NaN, delivered to the initial manager
  and flushed, is emitted with \<open>t = 0\<close>, and the time slot is null after the delivery.
\<close>

theorem emitted_time_finite_witness:
  "Data zero_sample \<in> set (emitted (run [Notify packet_nan, Checkpoint] ble_init))
   \<and> isFinite (dev_t zero_sample)
   \<and> getFloat32 packet_nan 76 = Inr NaN \<and> \<not> isFinite NaN
   \<and> latestTimeSec (deliver ble_init packet_nan) = None"
  using emitted_time_finite [of "[Notify packet_nan, Checkpoint]" packet_nan NaN ble_init]
  by (simp add: run_nan getFloat32_nan)

section \<open>The clock tracker\<close>

text \<open>
  Claim C4 says that a sample with a non-finite device time leaves the anchor unchanged.
  With the anchor at 10 and a sample whose time is NaN, the handler assigns null: the
  anchor is not what it was.
\<close>

theorem clock_nonfinite_counterexample:
  "prevDeviceTimeSec (snd (handleSensorData (sample_at NaN) (app_loaded (Some (Fin 10)))))
     \<noteq> prevDeviceTimeSec (app_loaded (Some (Fin 10)))"
  by (simp add: handleSensorData_def sample_at_def app_loaded_def app_init_def Let_def)

text \<open>
  Claim C4 as amended: when the clock tracker processes a sample whose device time is
  non-finite, it reports \<open>dt = 0\<close> and sets the anchor to null. The \<open>dt\<close> reported is the
  one handed to the model by the dispatch of the active mode.
\<close>

theorem clock_nonfinite:
  assumes "\<not> isFinite (dev_t d)"
    and "accel d = Some a" "gyro d = Some g" "mag d = Some m" "temperature d = Some T"
    and "pcbModel s = Some calls"
  shows "prevDeviceTimeSec (snd (handleSensorData d s)) = None
       \<and> pcbModel (snd (handleSensorData d s)) = Some (calls @ dispatch (mode s) d a (Fin 0))"
  using assms by (simp add: handleSensorData_ok Let_def split: option.split)

text \<open>
  Witness for C4 as amended: anchor 10, a sample at time +Infinity in the default mode.
\<close>

theorem clock_nonfinite_witness:
  "\<not> isFinite (dev_t (sample_at PosInf))
   \<and> prevDeviceTimeSec
        (snd (handleSensorData (sample_at PosInf) (app_loaded (Some (Fin 10))))) = None
   \<and> pcbModel (snd (handleSensorData (sample_at PosInf) (app_loaded (Some (Fin 10)))))
       = Some [UpdateOrientationFromAccel (Vec3 (Fin 0) (Fin 0) (Fin 1)) (Fin 0)]"
  using clock_nonfinite [of "sample_at PosInf" "Vec3 (Fin 0) (Fin 0) (Fin 1)"
      "Vec3 (Fin 0) (Fin 0) (Fin 0)" "Vec3 (Fin 30) (Fin 0) (Fin 0)" "Fin 25"
      "app_loaded (Some (Fin 10))" "[]"]
  by (simp add: sample_at_def app_loaded_def app_init_def)

text \<open>
  Claim C6: with a non-null anchor \<open>p\<close> and a finite device time \<open>t\<close> the clock tracker
  reports \<open>dt = max(0, t - p)\<close>, the difference being the double subtraction, which is
  never negative, and the anchor becomes \<open>t\<close>. The \<open>dt\<close> reported is the second argument
  of the call the model receives: from the accelerometer in accel mode, from the
  integrated gyro angles in gyro mode, from a fusion triple in the fusion modes when the
  sample has one.
\<close>

theorem clock_finite:
  assumes "dev_t d = Fin t" and "prevDeviceTimeSec s = Some (Fin p)"
    and "accel d = Some a" "gyro d = Some g" "mag d = Some m" "temperature d = Some T"
    and "pcbModel s = Some calls"
  shows "(let dt = nmax (Fin 0) (round64 (t - p))
          in pcbModel (snd (handleSensorData d s))
               = Some (calls @
                   (case mode s of
                      ModeAccel \<Rightarrow> [UpdateOrientationFromAccel a dt]
                    | ModeGyro \<Rightarrow> [UpdateOrientationFromEuler (gyroInt d) dt]
                    | ModeFusion \<Rightarrow>
                        (case fusion d of None \<Rightarrow> []
                         | Some f \<Rightarrow> [UpdateOrientationFromEuler (Some f) dt])
                    | ModeFusionMag \<Rightarrow>
                        (case fusionMag d of None \<Rightarrow> []
                         | Some f \<Rightarrow> [UpdateOrientationFromEuler (Some f) dt])))
             \<and> \<not> nlt dt (Fin 0)
             \<and> (dt = PosInf \<or> (\<exists>r. dt = Fin r \<and> 0 \<le> r)))
       \<and> prevDeviceTimeSec (snd (handleSensorData d s)) = Some (Fin t)"
proof -
  define dt where "dt = nmax (Fin 0) (round64 (t - p))"
  have nn: "dt = PosInf \<or> (\<exists>r. dt = Fin r \<and> 0 \<le> r)"
    unfolding dt_def using round64_not_NaN [of "t - p"]
    by (cases "round64 (t - p)") (auto simp add: nmax_def)
  then have nl: "\<not> nlt dt (Fin 0)" by auto
  have sub: "nsub (Fin t) (Fin p) = round64 (t - p)" by (simp add: nsub_def)
  have "pcbModel (snd (handleSensorData d s)) = Some (calls @ dispatch (mode s) d a dt)"
    using assms by (simp add: handleSensorData_ok Let_def sub dt_def)
  then have "pcbModel (snd (handleSensorData d s))
               = Some (calls @
                   (case mode s of
                      ModeAccel \<Rightarrow> [UpdateOrientationFromAccel a dt]
                    | ModeGyro \<Rightarrow> [UpdateOrientationFromEuler (gyroInt d) dt]
                    | ModeFusion \<Rightarrow>
                        (case fusion d of None \<Rightarrow> []
                         | Some f \<Rightarrow> [UpdateOrientationFromEuler (Some f) dt])
                    | ModeFusionMag \<Rightarrow>
                        (case fusionMag d of None \<Rightarrow> []
                         | Some f \<Rightarrow> [UpdateOrientationFromEuler (Some f) dt])))"
    by (cases "mode s") simp_all
  moreover have "prevDeviceTimeSec (snd (handleSensorData d s)) = Some (Fin t)"
    using assms by (simp add: handleSensorData_ok Let_def)
  ultimately show ?thesis
    using nn nl by (simp add: Let_def dt_def [symmetric])
qed

text \<open>
  Witness for C6. The clock rollback of the claim: anchor 10.0 and next time 9.5 give
  \<open>dt = 0\<close>, and the anchor becomes 9.5. A step forward: anchor 10.0 and next time 10.5
  in gyro mode hand \<open>dt = 0.5\<close> to the model. A rounded difference: anchor \<open>2 ^ - 60\<close>
  and next time 1 give \<open>dt = 1\<close>, the double nearest to \<open>1 - 2 ^ - 60\<close>.
\<close>

theorem clock_finite_witness:
  "pcbModel (snd (handleSensorData (sample_at (Fin (19 / 2))) (app_loaded (Some (Fin 10)))))
       = Some [UpdateOrientationFromAccel (Vec3 (Fin 0) (Fin 0) (Fin 1)) (Fin 0)]
   \<and> prevDeviceTimeSec
        (snd (handleSensorData (sample_at (Fin (19 / 2))) (app_loaded (Some (Fin 10)))))
       = Some (Fin (19 / 2))
   \<and> pcbModel (snd (handleSensorData (sample_at (Fin (21 / 2)))
        ((app_loaded (Some (Fin 10)))\<lparr>mode := ModeGyro\<rparr>)))
       = Some [UpdateOrientationFromEuler (Some (Euler (Fin 0) (Fin 0) (Fin 0))) (Fin (1 / 2))]
   \<and> pcbModel (snd (handleSensorData (sample_at (Fin 1)) (app_loaded (Some (Fin tiny_anchor)))))
       = Some [UpdateOrientationFromAccel (Vec3 (Fin 0) (Fin 0) (Fin 1)) (Fin 1)]"
proof -
  have r1: "nmax (Fin 0) (round64 (19 / 2 - 10)) = Fin 0"
    using round64_minus_half by (simp add: nmax_def)
  have r2: "nmax (Fin 0) (round64 (21 / 2 - 10)) = Fin (1 / 2)"
    using round64_half by (simp add: nmax_def)
  have r3: "nmax (Fin 0) (round64 (1 - tiny_anchor)) = Fin 1"
    by (simp add: round64_near_one nmax_def)
  have w1: "(let dt = nmax (Fin 0) (round64 (19 / 2 - 10))
          in pcbModel (snd (handleSensorData (sample_at (Fin (19 / 2)))
                 (app_loaded (Some (Fin 10)))))
               = Some ([] @
                   (case mode (app_loaded (Some (Fin 10))) of
                      ModeAccel \<Rightarrow> [UpdateOrientationFromAccel (Vec3 (Fin 0) (Fin 0) (Fin 1)) dt]
                    | ModeGyro \<Rightarrow>
                        [UpdateOrientationFromEuler (gyroInt (sample_at (Fin (19 / 2)))) dt]
                    | ModeFusion \<Rightarrow>
                        (case fusion (sample_at (Fin (19 / 2))) of None \<Rightarrow> []
                         | Some f \<Rightarrow> [UpdateOrientationFromEuler (Some f) dt])
                    | ModeFusionMag \<Rightarrow>
                        (case fusionMag (sample_at (Fin (19 / 2))) of None \<Rightarrow> []
                         | Some f \<Rightarrow> [UpdateOrientationFromEuler (Some f) dt])))
             \<and> \<not> nlt dt (Fin 0)
             \<and> (dt = PosInf \<or> (\<exists>r. dt = Fin r \<and> 0 \<le> r)))
       \<and> prevDeviceTimeSec (snd (handleSensorData (sample_at (Fin (19 / 2)))
            (app_loaded (Some (Fin 10))))) = Some (Fin (19 / 2))"
    by (rule clock_finite [where g = "Vec3 (Fin 0) (Fin 0) (Fin 0)"
          and m = "Vec3 (Fin 30) (Fin 0) (Fin 0)" and T = "Fin 25"])
       (simp_all add: sample_at_def app_loaded_def app_init_def)
  have w2: "(let dt = nmax (Fin 0) (round64 (21 / 2 - 10))
          in pcbModel (snd (handleSensorData (sample_at (Fin (21 / 2)))
                 ((app_loaded (Some (Fin 10)))\<lparr>mode := ModeGyro\<rparr>)))
               = Some ([] @
                   (case mode ((app_loaded (Some (Fin 10)))\<lparr>mode := ModeGyro\<rparr>) of
                      ModeAccel \<Rightarrow> [UpdateOrientationFromAccel (Vec3 (Fin 0) (Fin 0) (Fin 1)) dt]
                    | ModeGyro \<Rightarrow>
                        [UpdateOrientationFromEuler (gyroInt (sample_at (Fin (21 / 2)))) dt]
                    | ModeFusion \<Rightarrow>
                        (case fusion (sample_at (Fin (21 / 2))) of None \<Rightarrow> []
                         | Some f \<Rightarrow> [UpdateOrientationFromEuler (Some f) dt])
                    | ModeFusionMag \<Rightarrow>
                        (case fusionMag (sample_at (Fin (21 / 2))) of None \<Rightarrow> []
                         | Some f \<Rightarrow> [UpdateOrientationFromEuler (Some f) dt])))
             \<and> \<not> nlt dt (Fin 0)
             \<and> (dt = PosInf \<or> (\<exists>r. dt = Fin r \<and> 0 \<le> r)))
       \<and> prevDeviceTimeSec (snd (handleSensorData (sample_at (Fin (21 / 2)))
            ((app_loaded (Some (Fin 10)))\<lparr>mode := ModeGyro\<rparr>))) = Some (Fin (21 / 2))"
    by (rule clock_finite [where g = "Vec3 (Fin 0) (Fin 0) (Fin 0)"
          and m = "Vec3 (Fin 30) (Fin 0) (Fin 0)" and T = "Fin 25"])
       (simp_all add: sample_at_def app_loaded_def app_init_def)
  have w3: "(let dt = nmax (Fin 0) (round64 (1 - tiny_anchor))
          in pcbModel (snd (handleSensorData (sample_at (Fin 1))
                 (app_loaded (Some (Fin tiny_anchor)))))
               = Some ([] @
                   (case mode (app_loaded (Some (Fin tiny_anchor))) of
                      ModeAccel \<Rightarrow> [UpdateOrientationFromAccel (Vec3 (Fin 0) (Fin 0) (Fin 1)) dt]
                    | ModeGyro \<Rightarrow>
                        [UpdateOrientationFromEuler (gyroInt (sample_at (Fin 1))) dt]
                    | ModeFusion \<Rightarrow>
                        (case fusion (sample_at (Fin 1)) of None \<Rightarrow> []
                         | Some f \<Rightarrow> [UpdateOrientationFromEuler (Some f) dt])
                    | ModeFusionMag \<Rightarrow>
                        (case fusionMag (sample_at (Fin 1)) of None \<Rightarrow> []
                         | Some f \<Rightarrow> [UpdateOrientationFromEuler (Some f) dt])))
             \<and> \<not> nlt dt (Fin 0)
             \<and> (dt = PosInf \<or> (\<exists>r. dt = Fin r \<and> 0 \<le> r)))
       \<and> prevDeviceTimeSec (snd (handleSensorData (sample_at (Fin 1))
            (app_loaded (Some (Fin tiny_anchor))))) = Some (Fin 1)"
    by (rule clock_finite [where g = "Vec3 (Fin 0) (Fin 0) (Fin 0)"
          and m = "Vec3 (Fin 30) (Fin 0) (Fin 0)" and T = "Fin 25"])
       (simp_all add: sample_at_def app_loaded_def app_init_def)
  have m: "mode (app_loaded (Some (Fin 10))) = ModeAccel"
    "mode ((app_loaded (Some (Fin 10)))\<lparr>mode := ModeGyro\<rparr>) = ModeGyro"
    "mode (app_loaded (Some (Fin tiny_anchor))) = ModeAccel"
    "gyroInt (sample_at (Fin (21 / 2))) = Some (Euler (Fin 0) (Fin 0) (Fin 0))"
    by (simp_all add: app_loaded_def app_init_def sample_at_def)
  from w1 have "pcbModel (snd (handleSensorData (sample_at (Fin (19 / 2)))
        (app_loaded (Some (Fin 10)))))
       = Some [UpdateOrientationFromAccel (Vec3 (Fin 0) (Fin 0) (Fin 1)) (Fin 0)]"
    and "prevDeviceTimeSec
        (snd (handleSensorData (sample_at (Fin (19 / 2))) (app_loaded (Some (Fin 10)))))
       = Some (Fin (19 / 2))"
    by (simp_all only: Let_def r1 m mode.case append_Nil)
  moreover from w2 have "pcbModel (snd (handleSensorData (sample_at (Fin (21 / 2)))
        ((app_loaded (Some (Fin 10)))\<lparr>mode := ModeGyro\<rparr>)))
       = Some [UpdateOrientationFromEuler (Some (Euler (Fin 0) (Fin 0) (Fin 0))) (Fin (1 / 2))]"
    by (simp only: Let_def r2 m mode.case append_Nil)
  moreover from w3 have "pcbModel (snd (handleSensorData (sample_at (Fin 1))
        (app_loaded (Some (Fin tiny_anchor)))))
       = Some [UpdateOrientationFromAccel (Vec3 (Fin 0) (Fin 0) (Fin 1)) (Fin 1)]"
    by (simp only: Let_def r3 m mode.case append_Nil)
  ultimately show ?thesis by (intro conjI)
qed

section \<open>Switching to gyro mode\<close>

text \<open>
  Claim C9: selecting the gyro mode invalidates the clock anchor, so the first sample
  handled after the switch reaches the model with \<open>dt = 0\<close>, whatever the anchor was.
\<close>

theorem gyro_switch_dt_zero:
  assumes "accel d = Some a" "gyro d = Some g" "mag d = Some m" "temperature d = Some T"
    and "pcbModel s = Some calls"
  shows "pcbModel (snd (handleSensorData d (onModeGyroChange True s)))
           = Some (calls @ [UpdateOrientationFromEuler (gyroInt d) (Fin 0)])"
proof -
  let ?s = "onModeGyroChange True s"
  have "pcbModel ?s = Some calls" "mode ?s = ModeGyro" "prevDeviceTimeSec ?s = None"
    using assms(5) by (simp_all add: onModeGyroChange_def)
  with assms(1-4) show ?thesis
    by (simp add: handleSensorData_ok [where s = ?s] Let_def)
qed

text \<open>
  Witness for C9: the anchor is 10 and the next sample comes at 10.01, a hundredth of a
  second later; after the switch it is dispatched with \<open>dt = 0\<close>.
\<close>

theorem gyro_switch_dt_zero_witness:
  "pcbModel (snd (handleSensorData (sample_at (Fin 10.01))
       (onModeGyroChange True (app_loaded (Some (Fin 10))))))
     = Some [UpdateOrientationFromEuler (Some (Euler (Fin 0) (Fin 0) (Fin 0))) (Fin 0)]"
  using gyro_switch_dt_zero [of "sample_at (Fin 10.01)" "Vec3 (Fin 0) (Fin 0) (Fin 1)"
      "Vec3 (Fin 0) (Fin 0) (Fin 0)" "Vec3 (Fin 30) (Fin 0) (Fin 0)" "Fin 25"
      "app_loaded (Some (Fin 10))" "[]"]
  by (simp add: sample_at_def app_loaded_def app_init_def)

section \<open>The rate meter\<close>

text \<open>
  Claim C8 says that on each sample at device time \<open>t\<close> the rate meter appends \<open>t\<close> and
  evicts from the head while the head is less than \<open>t - 1\<close>. A sample whose time is
  +Infinity, arriving at the window 0, 0.5, would then leave the one entry +Infinity; the
  code appends the last entry 0.5 in its place, evicts nothing and shows 3.
\<close>

theorem rate_nonfinite_counterexample:
  "msgTimestamps (snd (handleSensorData (sample_at PosInf)
       (app_init\<lparr>msgTimestamps := [Fin 0, Fin (1 / 2)], msgRate := 2\<rparr>)))
     = [Fin 0, Fin (1 / 2), Fin (1 / 2)]
   \<and> msgRate (snd (handleSensorData (sample_at PosInf)
       (app_init\<lparr>msgTimestamps := [Fin 0, Fin (1 / 2)], msgRate := 2\<rparr>))) = 3
   \<and> dropWhile (\<lambda>h. nlt h (nsub PosInf (Fin 1))) ([Fin 0, Fin (1 / 2)] @ [PosInf]) = [PosInf]"
proof -
  have "nsub (Fin (1 / 2)) (Fin 1) = Fin (- (1 / 2))"
    using round64_minus_half by (simp add: nsub_def)
  then show ?thesis
    by (simp add: handleSensorData_window sample_at_def app_init_def Let_def)
       (simp add: nsub_def)
qed

text \<open>
  Claim C8 as amended: on a sample whose device time \<open>t\<close> is finite the rate meter appends
  \<open>t\<close> to its window; on a sample whose time is not finite it appends the last entry of
  the window in its place, or 0 when the window is empty. It then evicts from the head
  while the head is less than the appended value minus 1 (a double subtraction) and shows
  the length of what is left; fed the device times 0.0, 0.2, 0.4, 0.6, 0.8, 1.0 and 1.2
  from the start, it shows 6 at the last one.
\<close>

theorem rate_window:
  "(isFinite (dev_t d) \<longrightarrow>
      msgTimestamps (snd (handleSensorData d s))
        = dropWhile (\<lambda>h. nlt h (nsub (dev_t d) (Fin 1))) (msgTimestamps s @ [dev_t d]))
   \<and> (\<not> isFinite (dev_t d) \<and> msgTimestamps s \<noteq> [] \<longrightarrow>
      msgTimestamps (snd (handleSensorData d s))
        = dropWhile (\<lambda>h. nlt h (nsub (last (msgTimestamps s)) (Fin 1)))
            (msgTimestamps s @ [last (msgTimestamps s)]))
   \<and> (\<not> isFinite (dev_t d) \<and> msgTimestamps s = [] \<longrightarrow>
      msgTimestamps (snd (handleSensorData d s))
        = dropWhile (\<lambda>h. nlt h (nsub (Fin 0) (Fin 1))) [Fin 0])
   \<and> msgRate (snd (handleSensorData d s)) = length (msgTimestamps (snd (handleSensorData d s)))
   \<and> msgRate (feed app_init
        (map (sample_at \<circ> round64) [0.0, 0.2, 0.4, 0.6, 0.8, 1.0, 1.2])) = 6"
proof -
  note w = handleSensorData_window [of d s]
  have a: "isFinite (dev_t d) \<longrightarrow>
      msgTimestamps (snd (handleSensorData d s))
        = dropWhile (\<lambda>h. nlt h (nsub (dev_t d) (Fin 1))) (msgTimestamps s @ [dev_t d])"
    using w by (simp add: evict_dropWhile Let_def)
  have b: "\<not> isFinite (dev_t d) \<and> msgTimestamps s \<noteq> [] \<longrightarrow>
      msgTimestamps (snd (handleSensorData d s))
        = dropWhile (\<lambda>h. nlt h (nsub (last (msgTimestamps s)) (Fin 1)))
            (msgTimestamps s @ [last (msgTimestamps s)])"
    using w by (simp add: evict_dropWhile Let_def)
  have c: "\<not> isFinite (dev_t d) \<and> msgTimestamps s = [] \<longrightarrow>
      msgTimestamps (snd (handleSensorData d s))
        = dropWhile (\<lambda>h. nlt h (nsub (Fin 0) (Fin 1))) [Fin 0]"
    using w by (simp add: evict_dropWhile Let_def)
  from w have r: "msgRate (snd (handleSensorData d s))
      = length (msgTimestamps (snd (handleSensorData d s)))"
    by blast
  from a b c r seven_samples show ?thesis by (intro conjI)
qed

text \<open>
  Witness for C8 as amended: a sample at 1.5 arriving at the window 0, 0.5 evicts the
  entry 0 and leaves 0.5, 1.5; a sample whose time is NaN arriving at the same window
  appends 0.5 again; a NaN arriving at the empty window appends 0; and a sample at
  \<open>2 ^ - 60\<close> arriving at the window -1 keeps the head, since the threshold
  \<open>2 ^ - 60 - 1\<close> rounds to -1.
\<close>

theorem rate_window_witness:
  "isFinite (dev_t (sample_at (Fin (3 / 2))))
   \<and> msgTimestamps (snd (handleSensorData (sample_at (Fin (3 / 2)))
        (app_init\<lparr>msgTimestamps := [Fin 0, Fin (1 / 2)], msgRate := 2\<rparr>)))
      = [Fin (1 / 2), Fin (3 / 2)]
   \<and> \<not> isFinite (dev_t (sample_at NaN))
   \<and> msgTimestamps (snd (handleSensorData (sample_at NaN)
        (app_init\<lparr>msgTimestamps := [Fin 0, Fin (1 / 2)], msgRate := 2\<rparr>)))
      = [Fin 0, Fin (1 / 2), Fin (1 / 2)]
   \<and> msgTimestamps (snd (handleSensorData (sample_at NaN) app_init)) = [Fin 0]
   \<and> msgTimestamps (snd (handleSensorData (sample_at (Fin tiny_anchor))
        (app_init\<lparr>msgTimestamps := [Fin (- 1)], msgRate := 1\<rparr>)))
      = [Fin (- 1), Fin tiny_anchor]"
proof -
  have a: "nsub (Fin (3 / 2)) (Fin 1) = Fin (1 / 2)"
    using round64_half by (simp add: nsub_def)
  have b: "nsub (Fin (1 / 2)) (Fin 1) = Fin (- (1 / 2))"
    using round64_minus_half by (simp add: nsub_def)
  have c: "nsub (Fin 0) (Fin 1) = Fin (- 1)"
    using round64_small_int [of "- 1"] by (simp add: nsub_def)
  from rate_window [of "sample_at (Fin (3 / 2))"
         "app_init\<lparr>msgTimestamps := [Fin 0, Fin (1 / 2)], msgRate := 2\<rparr>"]
       rate_window [of "sample_at NaN"
         "app_init\<lparr>msgTimestamps := [Fin 0, Fin (1 / 2)], msgRate := 2\<rparr>"]
       rate_window [of "sample_at NaN" app_init]
       rate_window [of "sample_at (Fin tiny_anchor)"
         "app_init\<lparr>msgTimestamps := [Fin (- 1)], msgRate := 1\<rparr>"]
  show ?thesis
    by (simp add: sample_at_def app_init_def a b c nsub_tiny_anchor)
qed

end
